theory Spec2Isabelle
  imports Complex_Main
begin

section \<open>The benchmark driver of TitanCache (benchmark.py)\<close>

text \<open>
  The driver replays workload scenarios against the cache's HTTP interface. Three things
  it uses lie outside the program text: the pseudo-random generator, the network and the
  clock.

  \<^item> Every value the generator hands out is an input of the model: a \<open>dispatch\<close> holds
    the draws one call of \<open>worker\<close> may consume, one field for each call site of the
    \<open>random\<close> module.
  \<^item> The network is an input as well: a dispatch carries the outcome of its HTTP call,
    either an exception raised by the client library or a response with a status.
  \<^item> A Python float is read as the real number it denotes. The conversion \<open>int(x)\<close>,
    which is exact on floats, truncates toward zero. The product and the power of the
    zipf sampler are rounded to binary64 (\<open>b64\<close> below), since the key they give
    depends on the rounding. The product \<open>space * 0.05\<close> of the hot sampler and the sum
    and product inside \<open>random.gauss\<close> are taken exactly: the first has the same integer
    part either way for every key space below \<open>5 * 10 ^ 15\<close>, and the properties of the
    payload hold for whatever the draw is.
  \<^item> Wall-clock readings (the timestamp and the latency of a record, the elapsed time of
    a progress line) are left out of the records and lines.
\<close>

subsection \<open>Data\<close>

record scenario =
  name :: string
  requests :: int
  users :: int
  read_ratio :: real
  key_pattern :: string
  payload_mean :: real
  payload_std :: real
  key_space :: int

datatype error = ValueError | ZeroDivisionError

datatype outcome = Transport_failure | Response int

datatype operation = READ | WRITE

text \<open>
  A request as the client sends it: \<open>POST url key value\<close> carries the JSON body
  \<open>{"key": key, "value": value}\<close>, \<open>GET url\<close> has no body. A key is \<open>None\<close>
  or a string, as in the source.
\<close>

datatype request = POST string "string option" string | GET string

text \<open>
  What one call of \<open>worker\<close> gets from outside: \<open>u_hot\<close> is the \<open>random.random()\<close>
  of the hot branch of \<open>get_key\<close>, \<open>raw_key\<close> the generator output behind its
  \<open>random.randint\<close>, \<open>u_zipf\<close> the \<open>random.random()\<close> of the zipf branch,
  \<open>z_gauss\<close> the standard normal deviate behind the \<open>random.gauss\<close> of
  \<open>generate_payload\<close>, \<open>u_op\<close> the \<open>random.random()\<close> that chooses between read and
  write, and \<open>net\<close> what \<open>session.post\<close> or \<open>session.get\<close> and the reading of the
  response end in.
\<close>

record dispatch =
  u_hot :: real
  raw_key :: nat
  u_zipf :: real
  z_gauss :: real
  u_op :: real
  net :: outcome

text \<open>The row appended to \<open>stats_list\<close>, without its two clock fields.\<close>

record request_record =
  rec_scenario :: string
  rec_operation :: operation
  rec_status :: int
  rec_payload_bytes :: nat
  rec_key :: "string option"

record progress_line =
  completed :: nat
  percent :: real

text \<open>
  What happens on the wire, in order: \<open>Issued i r\<close> when dispatch \<open>i\<close> sends request
  \<open>r\<close>, \<open>Resolved i\<close> when its call has returned or raised and the worker has booked
  the result.
\<close>

datatype event = Issued nat request | Resolved nat

text \<open>
  The state of one scenario run: the two shared objects of the source (\<open>stats_list\<close>,
  \<open>error_counter['count']\<close>), the progress lines printed so far, the argument list of
  every \<open>asyncio.gather\<close> call made so far (as task indices), and the events.
\<close>

record run_state =
  stats_list :: "request_record list"
  error_count :: nat
  printed :: "progress_line list"
  batches :: "nat list list"
  events :: "event list"

definition BASE_URL :: string where
  "BASE_URL = ''http://localhost:8080/api/cache''"

subsection \<open>Library functions\<close>

text \<open>\<open>int(x)\<close> on a float: truncation toward zero.\<close>

definition py_int :: "real \<Rightarrow> int" where
  "py_int x = (if 0 \<le> x then \<lfloor>x\<rfloor> else \<lceil>x\<rceil>)"

text \<open>
  Binary64 arithmetic. An operation returns its exact result rounded to the nearest
  number with a significand of 53 bits, a tie going to the even significand. \<open>rne\<close>
  rounds a real to an integer that way; \<open>b64 x\<close> finds the exponent \<open>e\<close> of the normal
  range with \<open>2^e \<le> |x| < 2^(e+1)\<close> and rounds \<open>x\<close> to a multiple of \<open>2^(e-52)\<close>.
  Zero is returned as it is; so are the subnormal numbers and those beyond the largest
  binary64, where the model does not say what the machine does.
\<close>

definition rne :: "real \<Rightarrow> int" where
  "rne s =
     (let f = \<lfloor>s\<rfloor>; r = s - of_int f
      in if r < 1 / 2 then f else if 1 / 2 < r then f + 1 else if even f then f else f + 1)"

definition exponents :: "int list" where
  "exponents = [- 1022..1023]"

definition b64 :: "real \<Rightarrow> real" where
  "b64 x =
     (case find (\<lambda>e. 2 powi e \<le> \<bar>x\<bar> \<and> \<bar>x\<bar> < 2 powi (e + 1)) exponents of
        None \<Rightarrow> x
      | Some e \<Rightarrow> sgn x * of_int (rne (\<bar>x\<bar> / 2 powi (e - 52))) * 2 powi (e - 52))"

text \<open>\<open>str(n)\<close> on an integer, which is what an f-string field \<open>{n}\<close> inserts.\<close>

definition digit_char :: "nat \<Rightarrow> char" where
  "digit_char n = ''0123456789'' ! n"

fun str_nat :: "nat \<Rightarrow> string" where
  "str_nat n = (if 10 \<le> n then str_nat (n div 10) @ [digit_char (n mod 10)] else [digit_char n])"

declare str_nat.simps [simp del]

definition str_int :: "int \<Rightarrow> string" where
  "str_int k = (if k < 0 then CHR ''-'' # str_nat (nat (- k)) else str_nat (nat k))"

text \<open>\<open>str(key)\<close> for a key that may be \<open>None\<close>.\<close>

definition str_key :: "string option \<Rightarrow> string" where
  "str_key key = (case key of None \<Rightarrow> ''None'' | Some s \<Rightarrow> s)"

text \<open>
  \<open>random.randint(a, b)\<close> is \<open>randrange(a, b + 1)\<close>: with \<open>width = b + 1 - a\<close> it
  returns \<open>a + _randbelow(width)\<close> when the width is positive and raises ValueError
  (empty range) otherwise. \<open>_randbelow(width)\<close> is some integer of \<open>[0, width)\<close>; the
  model reduces the generator's raw output modulo the width.
\<close>

definition randint :: "nat \<Rightarrow> int \<Rightarrow> int \<Rightarrow> error + int" where
  "randint raw a b =
     (let width = b + 1 - a
      in if 0 < width then Inr (a + int raw mod width) else Inl ValueError)"

text \<open>
  \<open>random.gauss(mu, sigma)\<close> returns \<open>mu + z * sigma\<close> for a standard normal deviate
  \<open>z\<close> that it computes from the generator.
\<close>

definition gauss :: "real \<Rightarrow> real \<Rightarrow> real \<Rightarrow> real" where
  "gauss mu sigma z = mu + z * sigma"

subsection \<open>Payloads and keys\<close>

definition generate_payload :: "real \<Rightarrow> real \<Rightarrow> real \<Rightarrow> string" where
  "generate_payload mean std z =
     (let size = py_int (gauss mean std z)
      in replicate (nat (max 1 size)) CHR ''X'')"

text \<open>
  The f-string \<open>f"user_{n}"\<close>, and \<open>get_key\<close>. In its zipf branch
  \<open>random.random() ** 3\<close> is the C library's \<open>pow\<close>, taken as correctly rounded, and
  \<open>space * ...\<close> converts the integer to binary64 and multiplies in binary64.
\<close>

definition user_key :: "int \<Rightarrow> string option" where
  "user_key n = Some (''user_'' @ str_int n)"

definition get_key :: "scenario \<Rightarrow> dispatch \<Rightarrow> error + string option" where
  "get_key config d =
     (let pattern = key_pattern config; space = key_space config
      in if pattern = ''uniform'' then
           map_sum id user_key (randint (raw_key d) 1 space)
         else if pattern = ''hot'' then
           (if u_hot d < 0.9 then
              map_sum id user_key (randint (raw_key d) 1 (py_int (real_of_int space * 0.05)))
            else map_sum id user_key (randint (raw_key d) 1 space))
         else if pattern = ''zipf'' then
           (let k = py_int (b64 (b64 (real_of_int space) * b64 ((u_zipf d) ^ 3)))
            in Inr (user_key (max 1 k)))
         else Inr None)"

subsection \<open>One dispatch\<close>

text \<open>
  \<open>worker\<close> returns the exception that leaves it, if any, and the state. The key and
  the payload are computed before the \<open>try\<close>, so an exception of \<open>get_key\<close> leaves the
  worker; an exception of the HTTP call is caught and counted.
\<close>

definition worker :: "(nat \<Rightarrow> dispatch) \<Rightarrow> nat \<Rightarrow> scenario \<Rightarrow> run_state \<Rightarrow> error option \<times> run_state" where
  "worker session i config st =
     (let d = session i
      in case get_key config d of
           Inl e \<Rightarrow> (Some e, st)
         | Inr key \<Rightarrow>
             (let val = generate_payload (payload_mean config) (payload_std config) (z_gauss d);
                  (op_type, req) =
                     (if u_op d > read_ratio config
                      then (WRITE, POST (BASE_URL @ ''/store'') key val)
                      else (READ, GET (BASE_URL @ ''/retrieve/'' @ str_key key)));
                  st1 = st\<lparr>events := events st @ [Issued i req]\<rparr>
              in case net d of
                   Response status \<Rightarrow>
                     (None, st1\<lparr>stats_list := stats_list st1 @
                        [\<lparr>rec_scenario = name config, rec_operation = op_type,
                          rec_status = status, rec_payload_bytes = length val, rec_key = key\<rparr>],
                        events := events st1 @ [Resolved i]\<rparr>)
                 | Transport_failure \<Rightarrow>
                     (None, st1\<lparr>error_count := error_count st1 + 1,
                        events := events st1 @ [Resolved i]\<rparr>)))"

text \<open>
  \<open>worker\<close> above is the coroutine run from its first line to its last. It is
  suspended once, at the HTTP call. \<open>worker_start\<close> is the part before the suspension
  (lines 81 to 90 or 94: key, payload, choice of the operation, the call), with the
  local variables the rest needs as its result; \<open>worker_finish\<close> is the part after it
  (the response or the exception, the record or the count).
\<close>

record pending =
  p_key :: "string option"
  p_value :: string
  p_op_type :: operation
  p_request :: request

definition worker_start :: "(nat \<Rightarrow> dispatch) \<Rightarrow> nat \<Rightarrow> scenario \<Rightarrow> error + pending" where
  "worker_start session i config =
     (let d = session i
      in case get_key config d of
           Inl e \<Rightarrow> Inl e
         | Inr key \<Rightarrow>
             (let val = generate_payload (payload_mean config) (payload_std config) (z_gauss d);
                  (op_type, req) =
                     (if u_op d > read_ratio config
                      then (WRITE, POST (BASE_URL @ ''/store'') key val)
                      else (READ, GET (BASE_URL @ ''/retrieve/'' @ str_key key)))
              in Inr \<lparr>p_key = key, p_value = val, p_op_type = op_type, p_request = req\<rparr>))"

definition worker_finish :: "(nat \<Rightarrow> dispatch) \<Rightarrow> nat \<Rightarrow> scenario \<Rightarrow> pending \<Rightarrow> run_state \<Rightarrow> run_state" where
  "worker_finish session i config p st =
     (case net (session i) of
        Response status \<Rightarrow>
          st\<lparr>stats_list := stats_list st @
               [\<lparr>rec_scenario = name config, rec_operation = p_op_type p,
                 rec_status = status, rec_payload_bytes = length (p_value p), rec_key = p_key p\<rparr>],
             events := events st @ [Resolved i]\<rparr>
      | Transport_failure \<Rightarrow>
          st\<lparr>error_count := error_count st + 1, events := events st @ [Resolved i]\<rparr>)"

subsection \<open>Batches\<close>

text \<open>
  \<open>await asyncio.gather(*tasks)\<close> starts every task of the batch and returns when all of
  them are done. Each task runs to its suspension when it is started, so all the requests
  of a batch are issued, in the order of the tasks, before any of them resolves; an
  exception of \<open>get_key\<close> leaves its task there and \<open>gather\<close> raises it. The tasks are
  resumed as their responses arrive, in an order the source does not fix: the model
  resumes them in the order of their issue, and the claims proved below speak of counts,
  of membership and of the order of issue and resolution only. An exception is not caught
  by \<open>run_scenario\<close>, whose list and counter are local, so nothing of the state is
  observable afterwards.
\<close>

fun start_tasks :: "(nat \<Rightarrow> dispatch) \<Rightarrow> scenario \<Rightarrow> nat list \<Rightarrow> error + (nat \<times> pending) list" where
  "start_tasks session config [] = Inr []"
| "start_tasks session config (i # tasks) =
     (case worker_start session i config of
        Inl e \<Rightarrow> Inl e
      | Inr p \<Rightarrow>
          (case start_tasks session config tasks of
             Inl e \<Rightarrow> Inl e
           | Inr ps \<Rightarrow> Inr ((i, p) # ps)))"

fun finish_tasks :: "(nat \<Rightarrow> dispatch) \<Rightarrow> scenario \<Rightarrow> (nat \<times> pending) list \<Rightarrow> run_state \<Rightarrow> run_state" where
  "finish_tasks session config [] st = st"
| "finish_tasks session config ((i, p) # ps) st =
     finish_tasks session config ps (worker_finish session i config p st)"

definition gather :: "(nat \<Rightarrow> dispatch) \<Rightarrow> scenario \<Rightarrow> nat list \<Rightarrow> run_state \<Rightarrow> error + run_state" where
  "gather session config tasks st =
     (case start_tasks session config tasks of
        Inl e \<Rightarrow> Inl e
      | Inr ps \<Rightarrow>
          Inr (finish_tasks session config ps
                 (st\<lparr>batches := batches st @ [tasks],
                     events := events st @ map (\<lambda>(i, p). Issued i (p_request p)) ps\<rparr>)))"

text \<open>
  The body of \<open>for i in range(total_reqs)\<close>, with the pending \<open>tasks\<close> as accumulator.
  A progress line holds the count \<open>i + 1\<close> and the percentage the source prints.
  The progress test divides by \<open>total_reqs // 10\<close>, which raises ZeroDivisionError when
  that quotient is zero; Python's \<open>//\<close> and \<open>%\<close> on integers are \<open>div\<close> and \<open>mod\<close>.
\<close>

definition progress :: "int \<Rightarrow> nat \<Rightarrow> progress_line" where
  "progress total_reqs i =
     \<lparr>completed = i + 1, percent = (real (i + 1) / real_of_int total_reqs) * 100\<rparr>"

fun batch_loop ::
  "(nat \<Rightarrow> dispatch) \<Rightarrow> scenario \<Rightarrow> nat list \<Rightarrow> nat list \<Rightarrow> run_state \<Rightarrow> error + (nat list \<times> run_state)" where
  "batch_loop session config [] tasks st = Inr (tasks, st)"
| "batch_loop session config (i # rest) tasks st =
     (let total_reqs = requests config; tasks1 = tasks @ [i]
      in if int (length tasks1) \<ge> users config then
           (case gather session config tasks1 st of
              Inl e \<Rightarrow> Inl e
            | Inr st1 \<Rightarrow>
                if total_reqs div 10 = 0 then Inl ZeroDivisionError
                else if (int i + 1) mod (total_reqs div 10) = 0 then
                  batch_loop session config rest []
                    (st1\<lparr>printed := printed st1 @ [progress total_reqs i]\<rparr>)
                else batch_loop session config rest [] st1)
         else batch_loop session config rest tasks1 st)"

definition initial_state :: run_state where
  "initial_state = \<lparr>stats_list = [], error_count = 0, printed = [], batches = [], events = []\<rparr>"

text \<open>
  \<open>run_scenario\<close>, from the first batch to the last. The model returns the whole final
  state; the source returns \<open>stats_list\<close> and prints the counter in its summary. The
  reset of the server, the pauses and the summary lines have no part in the properties
  below and are left out.
\<close>

definition run_scenario :: "scenario \<Rightarrow> (nat \<Rightarrow> dispatch) \<Rightarrow> error + run_state" where
  "run_scenario scn session =
     (case batch_loop session scn [0..<nat (requests scn)] [] initial_state of
        Inl e \<Rightarrow> Inl e
      | Inr (tasks, st) \<Rightarrow> if tasks \<noteq> [] then gather session scn tasks st else Inr st)"

subsection \<open>Vocabulary of the properties\<close>

text \<open>
  What one dispatch does when it runs alone, on the empty state, and what the dispatches
  of a batch contribute together: their records, their errors, and their events, first
  the requests issued, then the resolutions.
\<close>

definition alone :: "(nat \<Rightarrow> dispatch) \<Rightarrow> scenario \<Rightarrow> nat \<Rightarrow> run_state" where
  "alone session config i = snd (worker session i config initial_state)"

definition batch_records :: "(nat \<Rightarrow> dispatch) \<Rightarrow> scenario \<Rightarrow> nat list \<Rightarrow> request_record list" where
  "batch_records session config tasks = concat (map (\<lambda>i. stats_list (alone session config i)) tasks)"

definition batch_errors :: "(nat \<Rightarrow> dispatch) \<Rightarrow> scenario \<Rightarrow> nat list \<Rightarrow> nat" where
  "batch_errors session config tasks = sum_list (map (\<lambda>i. error_count (alone session config i)) tasks)"

definition issued_events :: "(nat \<Rightarrow> dispatch) \<Rightarrow> scenario \<Rightarrow> nat list \<Rightarrow> event list" where
  "issued_events session config tasks =
     concat (map (\<lambda>i. case worker_start session i config of
                          Inl e \<Rightarrow> []
                        | Inr p \<Rightarrow> [Issued i (p_request p)]) tasks)"

definition batch_events :: "(nat \<Rightarrow> dispatch) \<Rightarrow> scenario \<Rightarrow> nat list \<Rightarrow> event list" where
  "batch_events session config tasks = issued_events session config tasks @ map Resolved tasks"

text \<open>The operation a wire event stands for: a POST is a WRITE, a GET is a READ.\<close>

fun issued_op :: "event \<Rightarrow> operation option" where
  "issued_op (Issued i (POST url key val)) = Some WRITE"
| "issued_op (Issued i (GET url)) = Some READ"
| "issued_op (Resolved i) = None"

text \<open>
  \<open>started_before j i es\<close>: in the events \<open>es\<close>, dispatch \<open>j\<close> is issued before
  dispatch \<open>i\<close> is resolved, that is, an \<open>Issued j\<close> stands among the events that come
  before the first \<open>Resolved i\<close>.
\<close>

fun issued_index :: "event \<Rightarrow> nat option" where
  "issued_index (Issued i req) = Some i"
| "issued_index (Resolved i) = None"

definition started_before :: "nat \<Rightarrow> nat \<Rightarrow> event list \<Rightarrow> bool" where
  "started_before j i es \<longleftrightarrow>
     Some j \<in> set (map issued_index (takeWhile (\<lambda>e. e \<noteq> Resolved i) es))"

subsection \<open>Example inputs\<close>

text \<open>
  The scenario of the specification's example (ten requests, five users, reads only),
  and variants of it: twelve requests, a write-heavy one, one for each key pattern, a
  five-request one, and six requests for three users; and the second entry of the source's
  catalogue, \<open>SCENARIOS[1]\<close>.
\<close>

definition demo_scenario :: scenario where
  "demo_scenario = \<lparr>name = ''demo'', requests = 10, users = 5, read_ratio = 1,
     key_pattern = ''uniform'', payload_mean = 3, payload_std = 0, key_space = 100\<rparr>"

definition partial_scenario :: scenario where
  "partial_scenario = demo_scenario\<lparr>requests := 12\<rparr>"

definition write_scenario :: scenario where
  "write_scenario = demo_scenario\<lparr>read_ratio := 0.2\<rparr>"

definition hot_scenario :: scenario where
  "hot_scenario = demo_scenario\<lparr>key_pattern := ''hot'', key_space := 1000\<rparr>"

definition small_hot_scenario :: scenario where
  "small_hot_scenario = demo_scenario\<lparr>key_pattern := ''hot'', key_space := 19\<rparr>"

definition zipf_scenario :: scenario where
  "zipf_scenario = demo_scenario\<lparr>key_pattern := ''zipf''\<rparr>"

definition lru_scenario :: scenario where
  "lru_scenario = demo_scenario\<lparr>key_pattern := ''lru''\<rparr>"

definition flash_sale :: scenario where
  "flash_sale = \<lparr>name = ''2_Flash_Sale_Spike'', requests = 50000, users = 3000,
     read_ratio = 0.2, key_pattern = ''hot'', payload_mean = 1024, payload_std = 100,
     key_space = 1000\<rparr>"

definition tiny_scenario :: scenario where
  "tiny_scenario = demo_scenario\<lparr>requests := 5\<rparr>"

definition six_by_three :: scenario where
  "six_by_three = demo_scenario\<lparr>requests := 6, users := 3\<rparr>"

text \<open>
  Sessions: in \<open>demo_session\<close> dispatch 3 fails in transport and dispatch 7 is answered
  with 404; in \<open>quiet_session\<close> every dispatch is answered with 200.
\<close>

definition demo_session :: "nat \<Rightarrow> dispatch" where
  "demo_session i = \<lparr>u_hot = 0, raw_key = i, u_zipf = 0, z_gauss = 0, u_op = 1/2,
     net = (if i = 3 then Transport_failure else if i = 7 then Response 404 else Response 200)\<rparr>"

definition quiet_session :: "nat \<Rightarrow> dispatch" where
  "quiet_session i = \<lparr>u_hot = 1/2, raw_key = 6 * i, u_zipf = 1/2, z_gauss = 0, u_op = 1/2,
     net = Response 200\<rparr>"

text \<open>
  A dispatch whose zipf draw is \<open>3318280576899603 / 2 ^ 53\<close>, one of the values
  \<open>random.random()\<close> returns (they are the multiples of \<open>2 ^ -53\<close> below 1).
\<close>

definition rounding_draw :: dispatch where
  "rounding_draw = (quiet_session 0)\<lparr>u_zipf := 3318280576899603 / 2 ^ 53\<rparr>"

section \<open>Properties\<close>

subsection \<open>Auxiliary facts\<close>

lemma find_unique:
  assumes "e \<in> set xs" and "P e" and "\<And>y. y \<in> set xs \<Longrightarrow> P y \<Longrightarrow> y = e"
  shows "find P xs = Some e"
  using assms
proof (induction xs)
  case Nil
  then show ?case by simp
next
  case (Cons a xs)
  show ?case
  proof (cases "P a")
    case True
    have "a = e" by (rule Cons.prems(3)) (simp_all add: True)
    with True show ?thesis by simp
  next
    case False
    with Cons.prems(1,2) have m: "e \<in> set xs" by auto
    have "find P xs = Some e"
    proof (rule Cons.IH [OF m Cons.prems(2)])
      fix y
      assume "y \<in> set xs" and "P y"
      then show "y = e" by (intro Cons.prems(3)) simp_all
    qed
    with False show ?thesis by simp
  qed
qed

text \<open>A positive real lies in one binade only.\<close>

lemma binade_unique:
  fixes a :: real
  assumes "2 powi e \<le> a" and "a < 2 powi (e + 1)" and "2 powi y \<le> a" and "a < 2 powi (y + 1)"
  shows "y = e"
proof (rule ccontr)
  assume "y \<noteq> e"
  then consider "y + 1 \<le> e" | "e + 1 \<le> y" by linarith
  then show False
  proof cases
    case 1
    then have "(2::real) powi (y + 1) \<le> 2 powi e" by (intro power_int_increasing) simp_all
    with assms show False by linarith
  next
    case 2
    then have "(2::real) powi (e + 1) \<le> 2 powi y" by (intro power_int_increasing) simp_all
    with assms show False by linarith
  qed
qed

lemma set_exponents: "set exponents = {- 1022..1023}"
  unfolding exponents_def by (rule set_upto)

text \<open>The rounding of a number of the normal range, once its binade is known.\<close>

lemma b64_normal:
  assumes "- 1022 \<le> e" and "e \<le> 1023" and "2 powi e \<le> \<bar>x\<bar>" and "\<bar>x\<bar> < 2 powi (e + 1)"
  shows "b64 x = sgn x * of_int (rne (\<bar>x\<bar> / 2 powi (e - 52))) * 2 powi (e - 52)"
proof -
  have "find (\<lambda>e. 2 powi e \<le> \<bar>x\<bar> \<and> \<bar>x\<bar> < 2 powi (e + 1)) exponents = Some e"
  proof (rule find_unique)
    show "e \<in> set exponents" using assms(1,2) by (simp add: set_exponents)
    show "2 powi e \<le> \<bar>x\<bar> \<and> \<bar>x\<bar> < 2 powi (e + 1)" using assms(3,4) by simp
    fix y
    assume "y \<in> set exponents" and "2 powi y \<le> \<bar>x\<bar> \<and> \<bar>x\<bar> < 2 powi (y + 1)"
    then show "y = e" using binade_unique [of e "\<bar>x\<bar>" y] assms(3,4) by simp
  qed
  then show ?thesis by (simp add: b64_def)
qed

lemma randint_error: "randint raw a b = Inl e \<Longrightarrow> e = ValueError"
  by (auto simp: randint_def Let_def split: if_splits)

lemma randint_range: "randint raw a b = Inr n \<Longrightarrow> a \<le> n \<and> n \<le> b"
proof -
  assume r: "randint raw a b = Inr n"
  then have w: "0 < b + 1 - a" and n: "n = a + int raw mod (b + 1 - a)"
    by (auto simp: randint_def Let_def split: if_splits)
  from w have "0 \<le> int raw mod (b + 1 - a)" and "int raw mod (b + 1 - a) < b + 1 - a"
    by simp_all
  with n show ?thesis by simp
qed

lemma get_key_error: "get_key config d = Inl e \<Longrightarrow> e = ValueError"
  by (auto simp: get_key_def Let_def map_sum_def split: if_splits sum.splits dest: randint_error)

lemma worker_raises:
  "get_key config (session i) = Inl e \<Longrightarrow> worker session i config st = (Some e, st)"
  by (simp add: worker_def Let_def)

lemma worker_fst:
  "fst (worker session i config st) = (case get_key config (session i) of Inl e \<Rightarrow> Some e | Inr _ \<Rightarrow> None)"
  by (simp add: worker_def Let_def split: sum.splits outcome.splits prod.splits)

lemma worker_effect:
  assumes "worker session i config st = (None, st')"
  shows "st' = st\<lparr>stats_list := stats_list st @ stats_list (alone session config i),
                  error_count := error_count st + error_count (alone session config i),
                  events := events st @ events (alone session config i)\<rparr>"
  using assms
  by (auto simp: worker_def alone_def initial_state_def Let_def split: sum.splits outcome.splits prod.splits if_splits)

lemma worker_None_iff:
  "fst (worker session i config st) = None \<longleftrightarrow> \<not> isl (get_key config (session i))"
  by (simp add: worker_fst split: sum.splits)

lemma batch_records_Nil [simp]: "batch_records s c [] = []"
  by (simp add: batch_records_def)

lemma batch_records_Cons [simp]:
  "batch_records s c (i # is) = stats_list (alone s c i) @ batch_records s c is"
  by (simp add: batch_records_def)

lemma batch_records_append [simp]:
  "batch_records s c (xs @ ys) = batch_records s c xs @ batch_records s c ys"
  by (simp add: batch_records_def)

lemma batch_errors_Nil [simp]: "batch_errors s c [] = 0"
  by (simp add: batch_errors_def)

lemma batch_errors_Cons [simp]:
  "batch_errors s c (i # is) = error_count (alone s c i) + batch_errors s c is"
  by (simp add: batch_errors_def)

lemma batch_errors_append [simp]:
  "batch_errors s c (xs @ ys) = batch_errors s c xs + batch_errors s c ys"
  by (simp add: batch_errors_def)

lemma worker_start_raises:
  "get_key config (session i) = Inl e \<Longrightarrow> worker_start session i config = Inl e"
  by (simp add: worker_start_def Let_def)

lemma worker_start_isl:
  "isl (worker_start session i config) \<longleftrightarrow> isl (get_key config (session i))"
  by (simp add: worker_start_def Let_def split: sum.splits prod.splits)

text \<open>The coroutine is its first part followed by its second.\<close>

lemma worker_split:
  "worker session i config st =
     (case worker_start session i config of
        Inl e \<Rightarrow> (Some e, st)
      | Inr p \<Rightarrow>
          (None, worker_finish session i config p
                   (st\<lparr>events := events st @ [Issued i (p_request p)]\<rparr>)))"
  by (simp add: worker_def worker_start_def worker_finish_def Let_def
      split: sum.splits outcome.splits)

lemma worker_finish_effect:
  assumes "worker_start session i config = Inr p"
  shows "worker_finish session i config p st =
     st\<lparr>stats_list := stats_list st @ stats_list (alone session config i),
        error_count := error_count st + error_count (alone session config i),
        events := events st @ [Resolved i]\<rparr>"
proof -
  have "alone session config i = worker_finish session i config p
          (initial_state\<lparr>events := [Issued i (p_request p)]\<rparr>)"
    by (simp add: alone_def worker_split assms initial_state_def)
  then show ?thesis
    by (cases "net (session i)") (simp_all add: worker_finish_def initial_state_def)
qed

lemma issued_events_Nil [simp]: "issued_events s c [] = []"
  by (simp add: issued_events_def)

lemma issued_events_Cons [simp]:
  "issued_events s c (i # is) =
     (case worker_start s i c of Inl e \<Rightarrow> [] | Inr p \<Rightarrow> [Issued i (p_request p)])
     @ issued_events s c is"
  by (simp add: issued_events_def)

lemma start_tasks_effect:
  "start_tasks session config tasks = Inr ps \<Longrightarrow>
     map fst ps = tasks
     \<and> (\<forall>(i, p) \<in> set ps. worker_start session i config = Inr p)
     \<and> map (\<lambda>(i, p). Issued i (p_request p)) ps = issued_events session config tasks
     \<and> (\<forall>i \<in> set tasks. \<not> isl (get_key config (session i)))"
proof (induction tasks arbitrary: ps)
  case Nil
  then show ?case by simp
next
  case (Cons i tasks)
  from Cons.prems obtain p ps' where w: "worker_start session i config = Inr p"
    and r: "start_tasks session config tasks = Inr ps'" and ps: "ps = (i, p) # ps'"
    by (auto split: sum.splits)
  from w have k: "\<not> isl (get_key config (session i))"
    using worker_start_isl [of session i config] by simp
  from Cons.IH [OF r] w k show ?case unfolding ps by simp
qed

lemma start_tasks_returns:
  "\<forall>i \<in> set tasks. \<not> isl (get_key config (session i)) \<Longrightarrow>
     \<exists>ps. start_tasks session config tasks = Inr ps"
proof (induction tasks)
  case Nil
  then show ?case by simp
next
  case (Cons i tasks)
  then have "\<not> isl (worker_start session i config)"
    by (simp add: worker_start_isl)
  then obtain p where "worker_start session i config = Inr p"
    by (cases "worker_start session i config") auto
  with Cons show ?case by auto
qed

lemma start_tasks_raises:
  "\<exists>i \<in> set tasks. isl (get_key config (session i)) \<Longrightarrow>
     start_tasks session config tasks = Inl ValueError"
proof (induction tasks)
  case Nil
  then show ?case by simp
next
  case (Cons i tasks)
  show ?case
  proof (cases "get_key config (session i)")
    case (Inl e)
    then have "e = ValueError" by (rule get_key_error)
    with Inl show ?thesis by (simp add: worker_start_raises)
  next
    case (Inr k)
    then have "\<not> isl (worker_start session i config)" by (simp add: worker_start_isl)
    then obtain p where "worker_start session i config = Inr p"
      by (cases "worker_start session i config") auto
    moreover from Inr Cons.prems have "\<exists>i \<in> set tasks. isl (get_key config (session i))" by auto
    ultimately show ?thesis using Cons.IH by simp
  qed
qed

lemma finish_tasks_effect:
  "\<forall>(i, p) \<in> set ps. worker_start session i config = Inr p \<Longrightarrow>
     finish_tasks session config ps st =
       st\<lparr>stats_list := stats_list st @ batch_records session config (map fst ps),
          error_count := error_count st + batch_errors session config (map fst ps),
          events := events st @ map Resolved (map fst ps)\<rparr>"
proof (induction ps arbitrary: st)
  case Nil
  then show ?case by simp
next
  case (Cons a ps)
  obtain i p where a: "a = (i, p)" by (cases a)
  with Cons.prems have w: "worker_start session i config = Inr p"
    and r: "\<forall>(i, p) \<in> set ps. worker_start session i config = Inr p"
    by simp_all
  show ?case
    unfolding a by (simp add: Cons.IH [OF r] worker_finish_effect [OF w])
qed

lemma gather_effect:
  "gather session config tasks st = Inr st' \<Longrightarrow>
     st' = st\<lparr>stats_list := stats_list st @ batch_records session config tasks,
              error_count := error_count st + batch_errors session config tasks,
              batches := batches st @ [tasks],
              events := events st @ batch_events session config tasks\<rparr>
     \<and> (\<forall>i \<in> set tasks. \<not> isl (get_key config (session i)))"
proof -
  assume g: "gather session config tasks st = Inr st'"
  then obtain ps where s: "start_tasks session config tasks = Inr ps"
    and st': "st' = finish_tasks session config ps
                 (st\<lparr>batches := batches st @ [tasks],
                     events := events st @ map (\<lambda>(i, p). Issued i (p_request p)) ps\<rparr>)"
    by (auto simp: gather_def split: sum.splits)
  note e = start_tasks_effect [OF s]
  from e have w: "\<forall>(i, p) \<in> set ps. worker_start session i config = Inr p" by blast
  from e show ?thesis
    unfolding st' finish_tasks_effect [OF w] by (simp add: batch_events_def)
qed

lemma gather_returns:
  "\<forall>i \<in> set tasks. \<not> isl (get_key config (session i)) \<Longrightarrow> \<exists>st'. gather session config tasks st = Inr st'"
  using start_tasks_returns [of tasks config session] by (auto simp: gather_def)

lemma gather_raises:
  "\<exists>i \<in> set tasks. isl (get_key config (session i)) \<Longrightarrow> gather session config tasks st = Inl ValueError"
  using start_tasks_raises [of tasks config session] by (simp add: gather_def)

lemma batch_loop_effect:
  "batch_loop session config rest tasks st = Inr (tasks', st') \<Longrightarrow>
     \<exists>full. batches st' = batches st @ full
        \<and> concat full @ tasks' = tasks @ rest
        \<and> stats_list st' = stats_list st @ batch_records session config (concat full)
        \<and> error_count st' = error_count st + batch_errors session config (concat full)
        \<and> events st' = events st @ concat (map (batch_events session config) full)
        \<and> (\<forall>i \<in> set (concat full). \<not> isl (get_key config (session i)))"
proof (induction rest arbitrary: tasks st)
  case Nil
  then show ?case by simp
next
  case (Cons i rest)
  show ?case
  proof (cases "int (length (tasks @ [i])) \<ge> users config")
    case False
    with Cons.prems have "batch_loop session config rest (tasks @ [i]) st = Inr (tasks', st')"
      by (simp add: Let_def)
    from Cons.IH [OF this] show ?thesis by simp
  next
    case True
    with Cons.prems obtain st1 st2 where g: "gather session config (tasks @ [i]) st = Inr st1"
      and p: "st2 = st1 \<or> (\<exists>l. st2 = st1\<lparr>printed := printed st1 @ [l]\<rparr>)"
      and r: "batch_loop session config rest [] st2 = Inr (tasks', st')"
      by (auto simp: Let_def split: sum.splits if_splits)
    from gather_effect [OF g] p
    have s2: "batches st2 = batches st @ [tasks @ [i]]"
      "stats_list st2 = stats_list st @ batch_records session config (tasks @ [i])"
      "error_count st2 = error_count st + batch_errors session config (tasks @ [i])"
      "events st2 = events st @ batch_events session config (tasks @ [i])"
      and k: "\<forall>j \<in> set (tasks @ [i]). \<not> isl (get_key config (session j))"
      by auto
    from Cons.IH [OF r] obtain full where f: "batches st' = batches st2 @ full"
      "concat full @ tasks' = rest"
      "stats_list st' = stats_list st2 @ batch_records session config (concat full)"
      "error_count st' = error_count st2 + batch_errors session config (concat full)"
      "events st' = events st2 @ concat (map (batch_events session config) full)"
      "\<forall>i \<in> set (concat full). \<not> isl (get_key config (session i))"
      by auto
    show ?thesis
    proof (intro exI [of _ "(tasks @ [i]) # full"] conjI)
      show "batches st' = batches st @ (tasks @ [i]) # full" using f(1) s2(1) by simp
      show "concat ((tasks @ [i]) # full) @ tasks' = tasks @ i # rest" using f(2) by auto
      show "stats_list st' = stats_list st @ batch_records session config (concat ((tasks @ [i]) # full))"
        using f(3) s2(2) by simp
      show "error_count st' = error_count st + batch_errors session config (concat ((tasks @ [i]) # full))"
        using f(4) s2(3) by simp
      show "events st' = events st @ concat (map (batch_events session config) ((tasks @ [i]) # full))"
        using f(5) s2(4) by simp
      show "\<forall>i \<in> set (concat ((tasks @ [i]) # full)). \<not> isl (get_key config (session i))"
        using f(6) k by auto
    qed
  qed
qed

lemma batch_loop_sizes:
  "batch_loop session config rest tasks st = Inr (tasks', st') \<Longrightarrow>
   1 \<le> users config \<Longrightarrow> int (length tasks) < users config \<Longrightarrow>
     \<exists>full. batches st' = batches st @ full
        \<and> (\<forall>b \<in> set full. int (length b) = users config)
        \<and> int (length tasks') < users config"
proof (induction rest arbitrary: tasks st)
  case Nil
  then show ?case by simp
next
  case (Cons i rest)
  show ?case
  proof (cases "int (length (tasks @ [i])) \<ge> users config")
    case False
    with Cons.prems have "batch_loop session config rest (tasks @ [i]) st = Inr (tasks', st')"
      by (simp add: Let_def)
    from Cons.IH [OF this Cons.prems(2)] False show ?thesis by simp
  next
    case True
    with Cons.prems obtain st1 st2 where g: "gather session config (tasks @ [i]) st = Inr st1"
      and p: "st2 = st1 \<or> (\<exists>l. st2 = st1\<lparr>printed := printed st1 @ [l]\<rparr>)"
      and r: "batch_loop session config rest [] st2 = Inr (tasks', st')"
      by (auto simp: Let_def split: sum.splits if_splits)
    from gather_effect [OF g] p
    have s2: "batches st2 = batches st @ [tasks @ [i]]" by auto
    from True Cons.prems(3) have len: "int (length (tasks @ [i])) = users config" by simp
    from Cons.IH [OF r Cons.prems(2)] Cons.prems(2) obtain full where f: "batches st' = batches st2 @ full"
      "\<forall>b \<in> set full. int (length b) = users config" "int (length tasks') < users config"
      by auto
    show ?thesis
    proof (intro exI [of _ "(tasks @ [i]) # full"] conjI)
      show "batches st' = batches st @ (tasks @ [i]) # full" using f(1) s2 by simp
      show "\<forall>b \<in> set ((tasks @ [i]) # full). int (length b) = users config" using f(2) len by simp
      show "int (length tasks') < users config" by (rule f(3))
    qed
  qed
qed

lemma batch_loop_returns_gen:
  assumes "\<forall>i \<in> set (tasks @ rest). \<not> isl (get_key config (session i))"
    and "requests config div 10 \<noteq> 0 \<or> int (length tasks + length rest) < users config"
  shows "\<exists>r. batch_loop session config rest tasks st = Inr r"
  using assms
proof (induction rest arbitrary: tasks st)
  case Nil
  then show ?case by simp
next
  case (Cons i rest)
  show ?case
  proof (cases "int (length (tasks @ [i])) \<ge> users config")
    case False
    moreover from Cons.prems have "\<exists>r. batch_loop session config rest (tasks @ [i]) st = Inr r"
      by (intro Cons.IH) auto
    ultimately show ?thesis by (simp add: Let_def)
  next
    case True
    with Cons.prems(2) have d: "requests config div 10 \<noteq> 0" by auto
    from Cons.prems have "\<forall>j \<in> set (tasks @ [i]). \<not> isl (get_key config (session j))" by auto
    from gather_returns [OF this] obtain st1 where g: "gather session config (tasks @ [i]) st = Inr st1"
      by blast
    from Cons.prems d have *: "\<And>st2. \<exists>r. batch_loop session config rest [] st2 = Inr r"
      by (intro Cons.IH) auto
    from True g d * show ?thesis by (simp add: Let_def)
  qed
qed

lemma batch_loop_zero_div:
  assumes "batch_loop session config rest tasks st = Inr r"
    and "requests config div 10 = 0" and "rest \<noteq> []"
  shows "int (length tasks + length rest) < users config"
  using assms
proof (induction rest arbitrary: tasks st)
  case Nil
  then show ?case by simp
next
  case (Cons i rest)
  have small: "\<not> int (length (tasks @ [i])) \<ge> users config"
  proof
    assume "int (length (tasks @ [i])) \<ge> users config"
    with Cons.prems(1,2) show False
      by (simp add: Let_def split: sum.splits)
  qed
  with Cons.prems(1) have l: "batch_loop session config rest (tasks @ [i]) st = Inr r"
    by (simp add: Let_def)
  show ?case
  proof (cases "rest = []")
    case True
    with small show ?thesis by simp
  next
    case False
    from Cons.IH [OF l Cons.prems(2) False] show ?thesis by simp
  qed
qed


lemma run_scenario_effect:
  assumes "run_scenario scn session = Inr res"
  shows "concat (batches res) = [0..<nat (requests scn)]
       \<and> stats_list res = batch_records session scn [0..<nat (requests scn)]
       \<and> error_count res = batch_errors session scn [0..<nat (requests scn)]
       \<and> events res = concat (map (batch_events session scn) (batches res))
       \<and> (\<forall>i < nat (requests scn). \<not> isl (get_key scn (session i)))"
proof -
  from assms obtain tasks st where
    l: "batch_loop session scn [0..<nat (requests scn)] [] initial_state = Inr (tasks, st)"
    and f: "if tasks \<noteq> [] then gather session scn tasks st = Inr res else res = st"
    by (auto simp: run_scenario_def split: sum.splits if_splits)
  from batch_loop_effect [OF l] obtain full where
    b: "batches st = full" "concat full @ tasks = [0..<nat (requests scn)]"
      "stats_list st = batch_records session scn (concat full)"
      "error_count st = batch_errors session scn (concat full)"
      "events st = concat (map (batch_events session scn) full)"
      "\<forall>i \<in> set (concat full). \<not> isl (get_key scn (session i))"
    by (auto simp: initial_state_def)
  show ?thesis
  proof (cases "tasks = []")
    case True
    with f b have "\<forall>i \<in> set [0..<nat (requests scn)]. \<not> isl (get_key scn (session i))"
      by (metis append_Nil2)
    with True f b show ?thesis by auto
  next
    case False
    with f have g: "gather session scn tasks st = Inr res" by simp
    note e = gather_effect [OF g]
    from e have "\<forall>i \<in> set tasks. \<not> isl (get_key scn (session i))" by blast
    with b(6) have "\<forall>i \<in> set (concat full @ tasks). \<not> isl (get_key scn (session i))"
      unfolding set_append by blast
    then have k: "\<forall>i < nat (requests scn). \<not> isl (get_key scn (session i))"
      unfolding b(2) by simp
    have r: "batch_records session scn [0..<nat (requests scn)]
        = batch_records session scn (concat full) @ batch_records session scn tasks"
      unfolding b(2) [symmetric] by simp
    have r2: "batch_errors session scn [0..<nat (requests scn)]
        = batch_errors session scn (concat full) + batch_errors session scn tasks"
      unfolding b(2) [symmetric] by simp
    from e b k r r2 show ?thesis by simp
  qed
qed

lemma run_scenario_sizes:
  assumes "run_scenario scn session = Inr res" and "1 \<le> users scn"
  shows "\<exists>full rem. batches res = full @ (if rem = [] then [] else [rem])
           \<and> (\<forall>b \<in> set full. int (length b) = users scn)
           \<and> int (length rem) < users scn"
proof -
  from assms obtain tasks st where
    l: "batch_loop session scn [0..<nat (requests scn)] [] initial_state = Inr (tasks, st)"
    and f: "if tasks \<noteq> [] then gather session scn tasks st = Inr res else res = st"
    by (auto simp: run_scenario_def split: sum.splits if_splits)
  from batch_loop_sizes [OF l assms(2)] assms(2) obtain full where
    b: "batches st = full" "\<forall>b \<in> set full. int (length b) = users scn" "int (length tasks) < users scn"
    by (auto simp: initial_state_def)
  show ?thesis
  proof (cases "tasks = []")
    case True
    with f b show ?thesis by (intro exI [of _ full] exI [of _ "[]"]) simp
  next
    case False
    with f have g: "gather session scn tasks st = Inr res" by simp
    from gather_effect [OF g] b False show ?thesis
      by (intro exI [of _ full] exI [of _ tasks]) simp
  qed
qed

lemma run_scenario_returns_iff:
  "(\<exists>res. run_scenario scn session = Inr res) \<longleftrightarrow>
     (\<forall>i < nat (requests scn). \<not> isl (get_key scn (session i)))
     \<and> (10 \<le> requests scn \<or> requests scn \<le> 0 \<or> requests scn < users scn)"
proof
  assume "\<exists>res. run_scenario scn session = Inr res"
  then obtain res where r: "run_scenario scn session = Inr res" ..
  from run_scenario_effect [OF r]
  have k: "\<forall>i < nat (requests scn). \<not> isl (get_key scn (session i))" by blast
  have "10 \<le> requests scn \<or> requests scn \<le> 0 \<or> requests scn < users scn"
  proof (rule ccontr)
    assume "\<not> ?thesis"
    then have n: "requests scn div 10 = 0" "[0..<nat (requests scn)] \<noteq> []"
      and u: "\<not> requests scn < users scn" and p: "0 \<le> requests scn"
      by auto
    from r obtain p where "batch_loop session scn [0..<nat (requests scn)] [] initial_state = Inr p"
      by (auto simp: run_scenario_def split: sum.splits)
    from batch_loop_zero_div [OF this n] u p show False by simp
  qed
  with k show "(\<forall>i < nat (requests scn). \<not> isl (get_key scn (session i)))
     \<and> (10 \<le> requests scn \<or> requests scn \<le> 0 \<or> requests scn < users scn)" ..
next
  assume a: "(\<forall>i < nat (requests scn). \<not> isl (get_key scn (session i)))
     \<and> (10 \<le> requests scn \<or> requests scn \<le> 0 \<or> requests scn < users scn)"
  then have "requests scn div 10 \<noteq> 0 \<or> int (length ([]::nat list) + length [0..<nat (requests scn)]) < users scn
      \<or> [0..<nat (requests scn)] = []"
    by auto
  moreover from a have "\<forall>i \<in> set ([] @ [0..<nat (requests scn)]). \<not> isl (get_key scn (session i))"
    by simp
  ultimately have "\<exists>p. batch_loop session scn [0..<nat (requests scn)] [] initial_state = Inr p"
    using batch_loop_returns_gen [of "[]" "[0..<nat (requests scn)]" scn session initial_state]
    by (cases "[0..<nat (requests scn)] = []") auto
  then obtain tasks st where
    l: "batch_loop session scn [0..<nat (requests scn)] [] initial_state = Inr (tasks, st)"
    by auto
  from batch_loop_effect [OF l] obtain full where "concat full @ tasks = [0..<nat (requests scn)]"
    by auto
  then have "set (concat full) \<union> set tasks = set [0..<nat (requests scn)]"
    unfolding set_append [symmetric] by simp
  then have "set tasks \<subseteq> set [0..<nat (requests scn)]" by blast
  with a have "\<forall>i \<in> set tasks. \<not> isl (get_key scn (session i))" by auto
  from gather_returns [OF this] l show "\<exists>res. run_scenario scn session = Inr res"
    by (auto simp: run_scenario_def)
qed

lemma run_scenario_returns:
  assumes "\<forall>i < nat (requests scn). \<not> isl (get_key scn (session i))" and "requests scn div 10 \<noteq> 0"
  shows "\<exists>res. run_scenario scn session = Inr res"
proof -
  from assms(2) have "10 \<le> requests scn \<or> requests scn \<le> 0" by auto
  with assms(1) show ?thesis unfolding run_scenario_returns_iff by blast
qed

lemma length_concat_uniform:
  "\<forall>b \<in> set full. length b = u \<Longrightarrow> length (concat full) = length full * u"
  by (induction full) auto

lemma alone_ok:
  assumes "get_key config (session i) = Inr key"
  shows "alone session config i =
     (let d = session i;
          val = generate_payload (payload_mean config) (payload_std config) (z_gauss d);
          w = u_op d > read_ratio config;
          req = (if w then POST (BASE_URL @ ''/store'') key val else GET (BASE_URL @ ''/retrieve/'' @ str_key key))
      in case net d of
           Response status \<Rightarrow>
             \<lparr>stats_list = [\<lparr>rec_scenario = name config, rec_operation = (if w then WRITE else READ),
                 rec_status = status, rec_payload_bytes = length val, rec_key = key\<rparr>],
               error_count = 0, printed = [], batches = [], events = [Issued i req, Resolved i]\<rparr>
         | Transport_failure \<Rightarrow>
             \<lparr>stats_list = [], error_count = 1, printed = [], batches = [],
               events = [Issued i req, Resolved i]\<rparr>)"
  using assms
  by (simp add: alone_def worker_def initial_state_def Let_def split: outcome.splits)

lemma alone_counts:
  assumes "\<not> isl (get_key config (session i))"
  shows "length (stats_list (alone session config i)) = (if net (session i) = Transport_failure then 0 else 1)"
    and "error_count (alone session config i) = (if net (session i) = Transport_failure then 1 else 0)"
proof -
  from assms obtain key where g: "get_key config (session i) = Inr key"
    by (cases "get_key config (session i)") auto
  note a = alone_ok [of config session i key, OF g]
  show "length (stats_list (alone session config i)) = (if net (session i) = Transport_failure then 0 else 1)"
    unfolding a by (simp add: Let_def split: outcome.splits)
  show "error_count (alone session config i) = (if net (session i) = Transport_failure then 1 else 0)"
    unfolding a by (simp add: Let_def split: outcome.splits)
qed

lemma batch_counts:
  assumes "\<forall>i \<in> set tasks. \<not> isl (get_key config (session i))"
  shows "length (batch_records session config tasks)
           = length tasks - length (filter (\<lambda>i. net (session i) = Transport_failure) tasks)
       \<and> batch_errors session config tasks = length (filter (\<lambda>i. net (session i) = Transport_failure) tasks)"
  using assms
proof (induction tasks)
  case Nil
  then show ?case by simp
next
  case (Cons i tasks)
  have "length (filter (\<lambda>i. net (session i) = Transport_failure) tasks) \<le> length tasks"
    by (rule length_filter_le)
  with Cons show ?case by (simp add: alone_counts Suc_diff_le)
qed

lemma worker_response:
  assumes "\<not> isl (get_key config (session i))" and "net (session i) = Response s"
  shows "\<exists>r. fst (worker session i config st) = None
           \<and> stats_list (snd (worker session i config st)) = stats_list st @ [r]
           \<and> rec_status r = s
           \<and> error_count (snd (worker session i config st)) = error_count st"
proof -
  from assms obtain key where "get_key config (session i) = Inr key"
    by (cases "get_key config (session i)") auto
  with assms(2) show ?thesis
    by (simp add: worker_def Let_def split: prod.splits)
qed


lemma batch_records_concat: "batch_records s c (concat bs) = concat (map (batch_records s c) bs)"
  by (induction bs) simp_all

lemma batch_errors_concat: "batch_errors s c (concat bs) = sum_list (map (batch_errors s c) bs)"
  by (induction bs) simp_all

lemma batch_shape:
  assumes "run_scenario scn session = Inr res" and "1 \<le> users scn" and "0 \<le> requests scn"
  shows "\<exists>full rem. batches res = full @ (if rem = [] then [] else [rem])
           \<and> (\<forall>b \<in> set full. int (length b) = users scn)
           \<and> int (length full) = requests scn div users scn
           \<and> int (length rem) = requests scn mod users scn"
proof -
  define u where "u = nat (users scn)"
  define n where "n = nat (requests scn)"
  from assms(2,3) have un: "users scn = int u" "requests scn = int n" "0 < u"
    by (simp_all add: u_def n_def)
  from run_scenario_sizes [OF assms(1,2)] obtain full rem where
    b: "batches res = full @ (if rem = [] then [] else [rem])"
      "\<forall>b \<in> set full. int (length b) = users scn" "int (length rem) < users scn"
    by blast
  from b(2) un have "\<forall>b \<in> set full. length b = u" by simp
  then have lf: "length (concat full) = length full * u" by (rule length_concat_uniform)
  from run_scenario_effect [OF assms(1)] have "length (concat (batches res)) = n"
    by (simp add: n_def)
  with b(1) lf have n: "n = length full * u + length rem"
    by (simp split: if_splits)
  from b(3) un have r: "length rem < u" by simp
  from n r have d: "n div u = length full" "n mod u = length rem" by simp_all
  have "int (length full) = requests scn div users scn"
    unfolding un d(1) [symmetric] by (simp add: zdiv_int)
  moreover have "int (length rem) = requests scn mod users scn"
    unfolding un d(2) [symmetric] by (simp add: zmod_int)
  ultimately show ?thesis using b(1,2) by blast
qed

lemma dispatch_events:
  assumes "\<not> isl (get_key config (session i))"
  shows "\<exists>r. events (alone session config i) = [Issued i r, Resolved i]"
proof -
  from assms obtain key where g: "get_key config (session i) = Inr key"
    by (cases "get_key config (session i)") auto
  show ?thesis
    unfolding alone_ok [of config session i key, OF g] by (simp add: Let_def split: outcome.splits)
qed


lemma max1_py_int: "max 1 (py_int x) = max 1 \<lfloor>x\<rfloor>"
  by (auto simp: py_int_def max_def) (linarith+)?

lemma randint_py_int: "randint raw 1 (py_int x) = randint raw 1 \<lfloor>x\<rfloor>"
proof (cases "0 \<le> x")
  case True
  then show ?thesis by (simp add: py_int_def)
next
  case False
  then have "\<lceil>x\<rceil> \<le> 0" and "\<lfloor>x\<rfloor> \<le> 0"
    by (simp_all add: ceiling_le_iff floor_le_iff)
  with False show ?thesis by (simp add: py_int_def randint_def)
qed

lemma hot_get_key:
  assumes "key_pattern scn = ''hot''"
  shows "get_key scn d = map_sum id user_key (randint (raw_key d) 1
           (if u_hot d < 0.9 then \<lfloor>real_of_int (key_space scn) * 0.05\<rfloor> else key_space scn))"
  using assms by (simp add: get_key_def Let_def randint_py_int)

lemma randint_onto:
  assumes "a \<le> n" and "n \<le> b"
  shows "randint (nat (n - a)) a b = Inr n"
proof -
  from assms have "int (nat (n - a)) mod (b + 1 - a) = n - a"
    by simp
  with assms show ?thesis by (simp add: randint_def Let_def)
qed

lemma randint_raises_iff: "randint raw a b = Inl ValueError \<longleftrightarrow> b < a"
  by (auto simp: randint_def Let_def)


lemma run_scenario_raises:
  assumes "i < nat (requests scn)" and "isl (get_key scn (session i))"
  shows "\<exists>e. run_scenario scn session = Inl e"
proof (cases "run_scenario scn session")
  case (Inl e)
  then show ?thesis by blast
next
  case (Inr res)
  from run_scenario_effect [OF Inr] assms show ?thesis by blast
qed


lemma worker_start_ok:
  "get_key config (session i) = Inr key \<Longrightarrow>
     worker_start session i config =
       Inr \<lparr>p_key = key,
            p_value = generate_payload (payload_mean config) (payload_std config) (z_gauss (session i)),
            p_op_type = (if u_op (session i) > read_ratio config then WRITE else READ),
            p_request = (if u_op (session i) > read_ratio config
                         then POST (BASE_URL @ ''/store'') key
                                (generate_payload (payload_mean config) (payload_std config)
                                   (z_gauss (session i)))
                         else GET (BASE_URL @ ''/retrieve/'' @ str_key key))\<rparr>"
  by (simp add: worker_start_def Let_def)

lemma issued_events_keys:
  assumes "\<forall>i \<in> set tasks. \<not> isl (get_key config (session i))"
  shows "map issued_op (issued_events session config tasks)
           = map (\<lambda>i. Some (if u_op (session i) > read_ratio config then WRITE else READ)) tasks"
    and "map issued_index (issued_events session config tasks) = map Some tasks"
  using assms
proof (induction tasks)
  case Nil
  {
    case 1
    show ?case by simp
  next
    case 2
    show ?case by simp
  }
next
  case (Cons i tasks)
  {
    case 1
    then obtain key where g: "get_key config (session i) = Inr key"
      by (cases "get_key config (session i)") auto
    from 1 have r: "\<forall>i \<in> set tasks. \<not> isl (get_key config (session i))" by simp
    show ?case by (simp add: worker_start_ok [of config session i key, OF g] Cons.IH(1) [OF r])
  next
    case 2
    then obtain key where g: "get_key config (session i) = Inr key"
      by (cases "get_key config (session i)") auto
    from 2 have r: "\<forall>i \<in> set tasks. \<not> isl (get_key config (session i))" by simp
    show ?case by (simp add: worker_start_ok [of config session i key, OF g] Cons.IH(2) [OF r])
  }
qed

lemma issued_events_no_resolved: "Resolved i \<notin> set (issued_events s c tasks)"
  by (induction tasks) (auto split: sum.splits)

lemma issued_events_index:
  "Some j \<in> set (map issued_index (issued_events s c tasks)) \<Longrightarrow> j \<in> set tasks"
  by (induction tasks) (auto split: sum.splits)

lemma count_some:
  "length (filter (\<lambda>y. y = Some x) (map (\<lambda>i. Some (f i)) tasks))
     = length (filter (\<lambda>i. f i = x) tasks)"
  by (induction tasks) simp_all

lemma alone_ops:
  assumes "\<not> isl (get_key config (session i))"
  shows "map issued_op (events (alone session config i))
           = [Some (if u_op (session i) > read_ratio config then WRITE else READ), None]"
    and "map rec_operation (stats_list (alone session config i))
           = (if net (session i) = Transport_failure then []
              else [if u_op (session i) > read_ratio config then WRITE else READ])"
proof -
  from assms obtain key where g: "get_key config (session i) = Inr key"
    by (cases "get_key config (session i)") auto
  note a = alone_ok [of config session i key, OF g]
  show "map issued_op (events (alone session config i))
           = [Some (if u_op (session i) > read_ratio config then WRITE else READ), None]"
    unfolding a by (simp add: Let_def split: outcome.splits)
  show "map rec_operation (stats_list (alone session config i))
           = (if net (session i) = Transport_failure then []
              else [if u_op (session i) > read_ratio config then WRITE else READ])"
    unfolding a by (simp add: Let_def split: outcome.splits)
qed

lemma filter_issued_op:
  "length (filter (\<lambda>e. issued_op e = x) es) = length (filter (\<lambda>y. y = x) (map issued_op es))"
  by (induction es) simp_all

lemma batch_ops:
  assumes "\<forall>i \<in> set tasks. \<not> isl (get_key config (session i))"
  shows "length (filter (\<lambda>e. issued_op e = Some WRITE) (batch_events session config tasks))
           = length (filter (\<lambda>i. u_op (session i) > read_ratio config) tasks)
       \<and> length (filter (\<lambda>e. issued_op e = Some READ) (batch_events session config tasks))
           = length (filter (\<lambda>i. \<not> u_op (session i) > read_ratio config) tasks)
       \<and> map rec_operation (batch_records session config tasks)
           = map (\<lambda>i. if u_op (session i) > read_ratio config then WRITE else READ)
               (filter (\<lambda>i. net (session i) \<noteq> Transport_failure) tasks)"
proof -
  have n: "filter (\<lambda>e. issued_op e = Some x) (map Resolved tasks) = []" for x
    by (induction tasks) simp_all
  have c: "length (filter (\<lambda>e. issued_op e = Some x) (batch_events session config tasks))
      = length (filter (\<lambda>i. (if u_op (session i) > read_ratio config then WRITE else READ) = x) tasks)"
    for x
  proof -
    have "length (filter (\<lambda>e. issued_op e = Some x) (batch_events session config tasks))
        = length (filter (\<lambda>e. issued_op e = Some x) (issued_events session config tasks))"
      unfolding batch_events_def filter_append n by simp
    also have "\<dots> = length (filter (\<lambda>y. y = Some x)
                          (map issued_op (issued_events session config tasks)))"
      by (rule filter_issued_op)
    also have "\<dots> = length (filter (\<lambda>y. y = Some x)
        (map (\<lambda>i. Some (if u_op (session i) > read_ratio config then WRITE else READ)) tasks))"
      by (simp only: issued_events_keys(1) [OF assms])
    also have "\<dots> = length (filter
        (\<lambda>i. (if u_op (session i) > read_ratio config then WRITE else READ) = x) tasks)"
      by (rule count_some)
    finally show ?thesis .
  qed
  have w: "(\<lambda>i. (if u_op (session i) > read_ratio config then WRITE else READ) = WRITE)
      = (\<lambda>i. u_op (session i) > read_ratio config)"
    by auto
  have r: "(\<lambda>i. (if u_op (session i) > read_ratio config then WRITE else READ) = READ)
      = (\<lambda>i. \<not> u_op (session i) > read_ratio config)"
    by auto
  have m: "map rec_operation (batch_records session config tasks)
           = map (\<lambda>i. if u_op (session i) > read_ratio config then WRITE else READ)
               (filter (\<lambda>i. net (session i) \<noteq> Transport_failure) tasks)"
    using assms
  proof (induction tasks)
    case Nil
    then show ?case by simp
  next
    case (Cons i tasks)
    then have k: "\<not> isl (get_key config (session i))" by simp
    from Cons show ?case
      by (simp add: alone_ops(2) [of config session i, OF k])
  qed
  from c [of WRITE] c [of READ] m show ?thesis unfolding w r by simp
qed

lemma events_ops:
  assumes "\<forall>i \<in> set (concat bs). \<not> isl (get_key config (session i))"
  shows "length (filter (\<lambda>e. issued_op e = Some WRITE) (concat (map (batch_events session config) bs)))
           = length (filter (\<lambda>i. u_op (session i) > read_ratio config) (concat bs))
       \<and> length (filter (\<lambda>e. issued_op e = Some READ) (concat (map (batch_events session config) bs)))
           = length (filter (\<lambda>i. \<not> u_op (session i) > read_ratio config) (concat bs))"
  using assms
proof (induction bs)
  case Nil
  then show ?case by simp
next
  case (Cons b bs)
  then have k: "\<forall>i \<in> set b. \<not> isl (get_key config (session i))"
    and r: "\<forall>i \<in> set (concat bs). \<not> isl (get_key config (session i))"
    by simp_all
  from batch_ops [OF k] Cons.IH [OF r] show ?case by simp
qed


lemma batch_full_iff:
  assumes "0 < u"
  shows "u \<le> k mod u + 1 \<longleftrightarrow> u dvd Suc k"
proof -
  from assms have "k mod u < u" by simp
  then show ?thesis
    by (auto simp: dvd_eq_mod_eq_0 mod_Suc)
qed

lemma batch_loop_printed:
  assumes "batch_loop session config rest tasks st = Inr (tasks', st')"
    and "rest = [k..<n]" and "users config = int u" and "0 < u" and "length tasks = k mod u"
  shows "printed st' = printed st @ map (progress (requests config))
           (filter (\<lambda>i. u dvd Suc i \<and> (int i + 1) mod (requests config div 10) = 0) [k..<n])"
  using assms
proof (induction rest arbitrary: k tasks st)
  case Nil
  then show ?case by simp
next
  case (Cons i rest)
  from Cons.prems(2) have "[k..<n] = i # rest" by simp
  then have kn: "k < n" and ik: "i = k" and rest: "rest = [Suc k..<n]"
    unfolding upt_eq_Cons_conv by auto
  from kn have upt: "[k..<n] = k # [Suc k..<n]" by (simp add: upt_conv_Cons)
  have full: "int (length (tasks @ [i])) \<ge> users config \<longleftrightarrow> u dvd Suc k"
  proof -
    have "int (length (tasks @ [i])) \<ge> users config \<longleftrightarrow> u \<le> k mod u + 1"
      using Cons.prems(3,5) by auto
    with batch_full_iff [OF Cons.prems(4), of k] show ?thesis by simp
  qed
  show ?case
  proof (cases "u dvd Suc k")
    case False
    with full Cons.prems(1) have l: "batch_loop session config rest (tasks @ [i]) st = Inr (tasks', st')"
      by (simp add: Let_def)
    from False have "Suc k mod u \<noteq> 0" by (simp add: dvd_eq_mod_eq_0)
    then have "Suc k mod u = Suc (k mod u)" by (simp add: mod_Suc split: if_splits)
    with Cons.prems(5) have len: "length (tasks @ [i]) = Suc k mod u" by simp
    from Cons.IH [OF l rest Cons.prems(3,4) len] False show ?thesis
      unfolding upt by simp
  next
    case True
    then have len: "length ([]::nat list) = Suc k mod u" by simp
    from True full Cons.prems(1) obtain st1 where g: "gather session config (tasks @ [i]) st = Inr st1"
      and z: "requests config div 10 \<noteq> 0"
      and l: "batch_loop session config rest []
                (if (int i + 1) mod (requests config div 10) = 0
                 then st1\<lparr>printed := printed st1 @ [progress (requests config) i]\<rparr> else st1)
              = Inr (tasks', st')"
      by (auto simp: Let_def split: sum.splits if_splits)
    from gather_effect [OF g] have p: "printed st1 = printed st" by simp
    from Cons.IH [OF l rest Cons.prems(3,4) len] True p ik show ?thesis
      unfolding upt by simp
  qed
qed

lemma run_scenario_printed:
  assumes "run_scenario scn session = Inr res" and "1 \<le> users scn"
  shows "printed res = map (progress (requests scn))
           (filter (\<lambda>i. nat (users scn) dvd Suc i \<and> (int i + 1) mod (requests scn div 10) = 0)
              [0..<nat (requests scn)])"
proof -
  from assms obtain tasks st where
    l: "batch_loop session scn [0..<nat (requests scn)] [] initial_state = Inr (tasks, st)"
    and f: "if tasks \<noteq> [] then gather session scn tasks st = Inr res else res = st"
    by (auto simp: run_scenario_def split: sum.splits if_splits)
  from assms(2) have u: "users scn = int (nat (users scn))" "0 < nat (users scn)" by simp_all
  from batch_loop_printed [OF l refl u] have p: "printed st = map (progress (requests scn))
           (filter (\<lambda>i. nat (users scn) dvd Suc i \<and> (int i + 1) mod (requests scn div 10) = 0)
              [0..<nat (requests scn)])"
    by (simp add: initial_state_def)
  show ?thesis
  proof (cases "tasks = []")
    case True
    with f p show ?thesis by simp
  next
    case False
    with f have "gather session scn tasks st = Inr res" by simp
    from gather_effect [OF this] p show ?thesis by simp
  qed
qed

lemma filter_dvd_Suc:
  assumes "0 < d"
  shows "filter (\<lambda>i. d dvd Suc i) [0..<n] = map (\<lambda>j. Suc j * d - 1) [0..<n div d]"
proof (induction n)
  case 0
  then show ?case by simp
next
  case (Suc n)
  show ?case
  proof (cases "d dvd Suc n")
    case True
    then have m: "Suc n mod d = 0" by (simp add: dvd_eq_mod_eq_0)
    then have q: "Suc n div d = Suc (n div d)" by (simp add: div_Suc)
    from m have "Suc n = Suc n div d * d" by (metis div_mult_mod_eq add.right_neutral)
    with q have "Suc (n div d) * d - 1 = n" by (metis diff_Suc_1)
    with True Suc q show ?thesis by simp
  next
    case False
    then have "Suc n mod d \<noteq> 0" by (simp add: dvd_eq_mod_eq_0)
    then have "Suc n div d = n div d" by (simp add: div_Suc)
    with False Suc show ?thesis by simp
  qed
qed

lemma flash_sale_boundaries:
  "(3000 dvd Suc i \<and> (int i + 1) mod 5000 = 0) \<longleftrightarrow> 15000 dvd Suc i"
proof -
  have a: "(int i + 1) mod 5000 = 0 \<longleftrightarrow> (5000::nat) dvd Suc i"
  proof -
    have "(int i + 1) mod 5000 = 0 \<longleftrightarrow> (5000::int) dvd int (Suc i)"
      by (simp add: dvd_eq_mod_eq_0 add.commute)
    also have "\<dots> \<longleftrightarrow> (5000::nat) dvd Suc i"
      using int_dvd_int_iff [of 5000 "Suc i"] by simp
    finally show ?thesis .
  qed
  have b: "15000 dvd m" if "3000 dvd m" and "5000 dvd m" for m :: nat
  proof -
    from that(1) obtain a where a: "m = 3000 * a" by (rule dvdE)
    from that(2) obtain b where b: "m = 5000 * b" by (rule dvdE)
    from a b have "m = 15000 * (2 * b - a)" by arith
    then show ?thesis by (rule dvdI)
  qed
  have c: "3000 dvd m \<and> 5000 dvd m" if "15000 dvd m" for m :: nat
  proof -
    have "(3000::nat) dvd 15000" and "(5000::nat) dvd 15000" by simp_all
    from this(1) that have "3000 dvd m" by (rule dvd_trans)
    moreover from \<open>(5000::nat) dvd 15000\<close> that have "5000 dvd m" by (rule dvd_trans)
    ultimately show ?thesis ..
  qed
  show ?thesis unfolding a using b [of "Suc i"] c [of "Suc i"] by blast
qed


lemma flash_sale_keys: "\<not> isl (get_key flash_sale (quiet_session i))"
  by (simp add: flash_sale_def quiet_session_def get_key_def randint_def py_int_def Let_def)


lemma alone_events_cases:
  "events (alone session config i) = []
   \<or> (\<exists>r. events (alone session config i) = [Issued i r, Resolved i])"
proof (cases "get_key config (session i)")
  case (Inl e)
  then show ?thesis by (simp add: alone_def worker_raises initial_state_def)
next
  case (Inr key)
  then have "\<not> isl (get_key config (session i))" by simp
  from dispatch_events [of config session i, OF this] show ?thesis by blast
qed

lemma issued_in_batch:
  "Some j \<in> set (map issued_index (batch_events session config tasks)) \<Longrightarrow> j \<in> set tasks"
  using issued_events_index [of j session config tasks] by (auto simp: batch_events_def)

lemma resolved_in_batch:
  "Resolved i \<in> set (batch_events session config tasks) \<longleftrightarrow> i \<in> set tasks"
  using issued_events_no_resolved [of i session config tasks] by (auto simp: batch_events_def)

text \<open>No dispatch of a later batch is issued before a dispatch of an earlier batch resolves.\<close>

lemma barrier:
  assumes ev: "es = concat (map (batch_events session config) bs)"
    and d: "distinct (concat bs)"
    and k: "k < k'" "k' < length bs" and i: "i \<in> set (bs ! k)" and j: "j \<in> set (bs ! k')"
  shows "Resolved i \<in> set es \<and> \<not> started_before j i es"
proof -
  define before where "before = take k' bs"
  define after where "after = drop k' bs"
  have split: "bs = before @ after"
    unfolding before_def after_def by simp
  from k have bk: "bs ! k \<in> set before"
    unfolding before_def
    by (metis in_set_conv_nth length_take min.absorb2 less_imp_le nth_take)
  from k have "bs ! k' \<in> set after"
    unfolding after_def by (metis Cons_nth_drop_Suc list.set_intros(1))
  with j have ja: "j \<in> set (concat after)" by auto
  from d have "distinct (concat before @ concat after)"
    by (subst (asm) split) simp
  with ja have jb: "j \<notin> set (concat before)" by auto
  define B where "B = concat (map (batch_events session config) before)"
  from bk i have r: "Resolved i \<in> set B"
    unfolding B_def by (auto simp: resolved_in_batch)
  have es: "es = B @ concat (map (batch_events session config) after)"
    unfolding ev B_def by (subst split) simp
  from r have tw: "takeWhile (\<lambda>e. e \<noteq> Resolved i) es = takeWhile (\<lambda>e. e \<noteq> Resolved i) B"
    unfolding es by (intro takeWhile_append1) auto
  have "\<not> started_before j i es"
  proof
    assume "started_before j i es"
    then obtain e where "e \<in> set (takeWhile (\<lambda>e. e \<noteq> Resolved i) es)" and ij: "issued_index e = Some j"
      unfolding started_before_def by auto
    with tw have "e \<in> set B"
      by (auto dest: set_takeWhileD)
    then obtain b where b: "b \<in> set before" and eb: "e \<in> set (batch_events session config b)"
      unfolding B_def by auto
    from eb ij have "Some j \<in> set (map issued_index (batch_events session config b))"
      by force
    from issued_in_batch [OF this] b jb show False by auto
  qed
  with r es show ?thesis by simp
qed

text \<open>Every dispatch of a batch is issued before any dispatch of that batch resolves.\<close>

lemma overlap:
  assumes ev: "es = concat (map (batch_events session config) bs)"
    and d: "distinct (concat bs)"
    and keys: "\<forall>i \<in> set (concat bs). \<not> isl (get_key config (session i))"
    and k: "k < length bs" and i: "i \<in> set (bs ! k)" and j: "j \<in> set (bs ! k)"
  shows "started_before j i es"
proof -
  define before where "before = take k bs"
  define after where "after = drop (Suc k) bs"
  from k have split: "bs = before @ bs ! k # after"
    unfolding before_def after_def by (rule id_take_nth_drop)
  from d have "distinct (concat before @ bs ! k @ concat after)"
    by (subst (asm) split) simp
  with i have ib: "i \<notin> set (concat before)" by auto
  define B where "B = concat (map (batch_events session config) before)"
  define I where "I = issued_events session config (bs ! k)"
  define R where "R = map Resolved (bs ! k) @ concat (map (batch_events session config) after)"
  have es: "es = (B @ I) @ R"
    unfolding ev B_def I_def R_def by (subst split) (simp add: batch_events_def)
  have nb: "Resolved i \<notin> set B"
  proof
    assume "Resolved i \<in> set B"
    then obtain b where "b \<in> set before" and "Resolved i \<in> set (batch_events session config b)"
      unfolding B_def by auto
    with ib show False by (auto simp: resolved_in_batch)
  qed
  have ni: "Resolved i \<notin> set I"
    unfolding I_def by (rule issued_events_no_resolved)
  from nb ni have "takeWhile (\<lambda>e. e \<noteq> Resolved i) es = (B @ I) @ takeWhile (\<lambda>e. e \<noteq> Resolved i) R"
    unfolding es by (intro takeWhile_append2) auto
  moreover from k have "bs ! k \<in> set bs" by simp
  with keys have "\<forall>i \<in> set (bs ! k). \<not> isl (get_key config (session i))"
    by auto
  from issued_events_keys(2) [OF this] j have "Some j \<in> set (map issued_index I)"
    unfolding I_def by simp
  ultimately show ?thesis
    unfolding started_before_def by auto
qed

lemma count_by_op:
  assumes "map f recs = map g (filter P xs)"
  shows "length (filter (\<lambda>r. f r = x) recs) = length (filter (\<lambda>j. g j = x \<and> P j) xs)"
proof -
  have "length (filter (\<lambda>r. f r = x) recs) = length (filter (\<lambda>y. y = x) (map f recs))"
    by (simp add: filter_map comp_def)
  also have "\<dots> = length (filter (\<lambda>y. y = x) (map g (filter P xs)))"
    by (simp only: assms)
  also have "\<dots> = length (filter (\<lambda>j. g j = x \<and> P j) xs)"
    by (simp add: filter_map comp_def conj_commute)
  finally show ?thesis .
qed

subsection \<open>Accounting of records and errors\<close>

text \<open>
  Claim C1. A scenario run that returns has attempted all its \<open>requests\<close> dispatches;
  let \<open>F\<close> be the number of them whose HTTP call raised. Then the record list has
  exactly \<open>requests - F\<close> rows and the error counter ends at \<open>F\<close>.
  A dispatch that receives a response, whatever its status \<open>s\<close> (a 404 or a 500 as well
  as a 200), appends exactly one record, which carries \<open>s\<close>, and leaves the error
  counter as it was. A run returns exactly when every dispatch gets its key and the
  progress test never divides by zero: ten requests or more, or none, or fewer than
  \<open>users\<close>.
\<close>

theorem records_and_errors_account_for_requests:
  "(\<forall>res. run_scenario scn session = Inr res \<longrightarrow>
      length (stats_list res) = nat (requests scn)
         - length (filter (\<lambda>i. net (session i) = Transport_failure) [0..<nat (requests scn)])
      \<and> error_count res
         = length (filter (\<lambda>i. net (session i) = Transport_failure) [0..<nat (requests scn)]))
   \<and> (\<forall>i s st. \<not> isl (get_key scn (session i)) \<and> net (session i) = Response s \<longrightarrow>
         (\<exists>r. fst (worker session i scn st) = None
            \<and> stats_list (snd (worker session i scn st)) = stats_list st @ [r]
            \<and> rec_status r = s
            \<and> error_count (snd (worker session i scn st)) = error_count st))
   \<and> ((\<exists>res. run_scenario scn session = Inr res) \<longleftrightarrow>
         (\<forall>i < nat (requests scn). \<not> isl (get_key scn (session i)))
         \<and> (10 \<le> requests scn \<or> requests scn \<le> 0 \<or> requests scn < users scn))"
proof -
  have 1: "length (stats_list res) = nat (requests scn)
         - length (filter (\<lambda>i. net (session i) = Transport_failure) [0..<nat (requests scn)])
      \<and> error_count res
         = length (filter (\<lambda>i. net (session i) = Transport_failure) [0..<nat (requests scn)])"
    if r: "run_scenario scn session = Inr res" for res
  proof -
    note e = run_scenario_effect [OF r]
    from e have k: "\<forall>i \<in> set [0..<nat (requests scn)]. \<not> isl (get_key scn (session i))" by simp
    from batch_counts [OF k] e show ?thesis by simp
  qed
  from 1 worker_response run_scenario_returns_iff [of scn session] show ?thesis
    by blast
qed

text \<open>
  The run of \<open>demo_scenario\<close>: ten dispatches, of which dispatch 3 fails in transport and
  dispatch 7 is answered with status 404. Nine records, one error, and the 404 is a record.
\<close>

theorem records_and_errors_account_for_requests_witness:
  "\<exists>res. run_scenario demo_scenario demo_session = Inr res
     \<and> length (stats_list res) = 9 \<and> error_count res = 1
     \<and> net (demo_session 7) = Response 404
     \<and> (\<exists>r. stats_list (snd (worker demo_session 7 demo_scenario initial_state)) = [r]
            \<and> rec_status r = 404)
     \<and> error_count (snd (worker demo_session 7 demo_scenario initial_state)) = 0"
proof -
  note t = records_and_errors_account_for_requests [of demo_scenario demo_session]
  have k: "\<not> isl (get_key demo_scenario (demo_session i))" for i
    by (simp add: get_key_def demo_scenario_def randint_def Let_def)
  have "10 \<le> requests demo_scenario" by (simp add: demo_scenario_def)
  with k t [THEN conjunct2, THEN conjunct2]
  obtain res where r: "run_scenario demo_scenario demo_session = Inr res" by blast
  have n: "nat (requests demo_scenario) = 10" by (simp add: demo_scenario_def)
  have f: "length (filter (\<lambda>i. net (demo_session i) = Transport_failure) [0..<10]) = 1"
    by (simp add: demo_session_def upt_conv_Cons)
  have s: "net (demo_session 7) = Response 404" by (simp add: demo_session_def)
  from t [THEN conjunct1, rule_format, OF r]
  have c: "length (stats_list res) = 9" "error_count res = 1"
    unfolding n f by simp_all
  from t [THEN conjunct2, THEN conjunct1, rule_format, of 7 404 initial_state] k s
  have "\<exists>r. fst (worker demo_session 7 demo_scenario initial_state) = None
          \<and> stats_list (snd (worker demo_session 7 demo_scenario initial_state))
              = stats_list initial_state @ [r]
          \<and> rec_status r = 404
          \<and> error_count (snd (worker demo_session 7 demo_scenario initial_state))
              = error_count initial_state"
    by blast
  then have "(\<exists>r. stats_list (snd (worker demo_session 7 demo_scenario initial_state)) = [r]
            \<and> rec_status r = 404)
     \<and> error_count (snd (worker demo_session 7 demo_scenario initial_state)) = 0"
    by (auto simp: initial_state_def)
  with r c s show ?thesis by blast
qed


subsection \<open>Batches\<close>

text \<open>
  Claim C2 says that every scenario is processed in \<open>requests div users\<close> batches of
  \<open>users\<close> concurrent dispatches, followed by one batch of the remaining
  \<open>requests mod users\<close>, a batch being complete before the next is started. The
  progress test of the loop, \<open>(i + 1) % (total_reqs // 10)\<close>, is evaluated right
  after each batch gathered inside the loop, and \<open>total_reqs // 10\<close> is zero for fewer
  than ten requests. With six requests and three users the claim asks for two batches of
  three. The source gathers dispatches 0, 1 and 2, then divides by zero at \<open>i = 2\<close>:
  the loop has left the first two dispatches pending, it raises on the third as soon as
  their batch has been gathered, and the run ends with ZeroDivisionError before
  dispatches 3, 4 and 5 are created. It is the division that ends the five-request run
  of the subsection on progress lines.
\<close>

theorem small_run_stops_after_first_batch:
  "requests six_by_three = 6 \<and> users six_by_three = 3
   \<and> batch_loop quiet_session six_by_three [0, 1] [] initial_state = Inr ([0, 1], initial_state)
   \<and> map_sum id batches (gather quiet_session six_by_three [0, 1, 2] initial_state)
        = Inr [[0, 1, 2]]
   \<and> batch_loop quiet_session six_by_three [0, 1, 2] [] initial_state = Inl ZeroDivisionError
   \<and> run_scenario six_by_three quiet_session = Inl ZeroDivisionError"
  by (simp add: run_scenario_def six_by_three_def demo_scenario_def quiet_session_def
      upt_conv_Cons Let_def gather_def worker_start_def worker_finish_def get_key_def
      randint_def initial_state_def generate_payload_def gauss_def py_int_def user_key_def)

text \<open>
  The runs that return. With at least one user and a request count that is not negative,
  the \<open>asyncio.gather\<close> calls of such a run partition the dispatches
  \<open>0, ..., requests - 1\<close> into consecutive batches. When \<open>users\<close> divides
  \<open>requests\<close> there are exactly \<open>requests div users\<close> batches of exactly \<open>users\<close>
  dispatches each. Otherwise one more batch follows, of \<open>requests mod users\<close>
  dispatches, and its records and errors are among the results. Every dispatch of a batch
  is issued before any dispatch of that batch resolves, and no dispatch of a later batch
  is issued before every dispatch of an earlier batch has resolved. Every dispatch ends
  as a record or as a counted error. A run returns exactly when every dispatch gets its
  key and the progress test never divides by zero: ten requests or more, or none, or
  fewer than \<open>users\<close>.
\<close>

theorem returning_runs_partition_requests:
  "(\<forall>res. run_scenario scn session = Inr res \<and> 1 \<le> users scn \<and> 0 \<le> requests scn \<longrightarrow>
       concat (batches res) = [0..<nat (requests scn)]
       \<and> (users scn dvd requests scn \<longrightarrow>
            int (length (batches res)) = requests scn div users scn
            \<and> (\<forall>b \<in> set (batches res). int (length b) = users scn))
       \<and> (\<not> users scn dvd requests scn \<longrightarrow>
            int (length (batches res)) = requests scn div users scn + 1
            \<and> (\<forall>b \<in> set (butlast (batches res)). int (length b) = users scn)
            \<and> int (length (last (batches res))) = requests scn mod users scn
            \<and> set (batch_records session scn (last (batches res))) \<subseteq> set (stats_list res)
            \<and> batch_errors session scn (last (batches res)) \<le> error_count res)
       \<and> (\<forall>k i j. k < length (batches res)
              \<and> i \<in> set (batches res ! k) \<and> j \<in> set (batches res ! k) \<longrightarrow>
            started_before j i (events res))
       \<and> (\<forall>k k' i j. k < k' \<and> k' < length (batches res)
              \<and> i \<in> set (batches res ! k) \<and> j \<in> set (batches res ! k') \<longrightarrow>
            Resolved i \<in> set (events res) \<and> \<not> started_before j i (events res))
       \<and> length (stats_list res) + error_count res = nat (requests scn))
   \<and> ((\<exists>res. run_scenario scn session = Inr res) \<longleftrightarrow>
         (\<forall>i < nat (requests scn). \<not> isl (get_key scn (session i)))
         \<and> (10 \<le> requests scn \<or> requests scn \<le> 0 \<or> requests scn < users scn))"
proof -
  have "concat (batches res) = [0..<nat (requests scn)]
       \<and> (users scn dvd requests scn \<longrightarrow>
            int (length (batches res)) = requests scn div users scn
            \<and> (\<forall>b \<in> set (batches res). int (length b) = users scn))
       \<and> (\<not> users scn dvd requests scn \<longrightarrow>
            int (length (batches res)) = requests scn div users scn + 1
            \<and> (\<forall>b \<in> set (butlast (batches res)). int (length b) = users scn)
            \<and> int (length (last (batches res))) = requests scn mod users scn
            \<and> set (batch_records session scn (last (batches res))) \<subseteq> set (stats_list res)
            \<and> batch_errors session scn (last (batches res)) \<le> error_count res)
       \<and> (\<forall>k i j. k < length (batches res)
              \<and> i \<in> set (batches res ! k) \<and> j \<in> set (batches res ! k) \<longrightarrow>
            started_before j i (events res))
       \<and> (\<forall>k k' i j. k < k' \<and> k' < length (batches res)
              \<and> i \<in> set (batches res ! k) \<and> j \<in> set (batches res ! k') \<longrightarrow>
            Resolved i \<in> set (events res) \<and> \<not> started_before j i (events res))
       \<and> length (stats_list res) + error_count res = nat (requests scn)"
    if r: "run_scenario scn session = Inr res" and u: "1 \<le> users scn" and n: "0 \<le> requests scn"
    for res
  proof -
    note e = run_scenario_effect [OF r]
    from batch_shape [OF r u n] obtain full rem where
      b: "batches res = full @ (if rem = [] then [] else [rem])"
        "\<forall>b \<in> set full. int (length b) = users scn"
        "int (length full) = requests scn div users scn"
        "int (length rem) = requests scn mod users scn"
      by blast
    have s: "stats_list res = concat (map (batch_records session scn) (batches res))"
      using e batch_records_concat [of session scn "batches res"] by simp
    have c: "error_count res = sum_list (map (batch_errors session scn) (batches res))"
      using e batch_errors_concat [of session scn "batches res"] by simp
    have dv: "users scn dvd requests scn \<longleftrightarrow> rem = []"
      using b(4) [symmetric] by (simp add: dvd_eq_mod_eq_0)
    have 1: "users scn dvd requests scn \<longrightarrow>
              int (length (batches res)) = requests scn div users scn
              \<and> (\<forall>b \<in> set (batches res). int (length b) = users scn)"
      using dv b by simp
    have 2: "\<not> users scn dvd requests scn \<longrightarrow>
              int (length (batches res)) = requests scn div users scn + 1
              \<and> (\<forall>b \<in> set (butlast (batches res)). int (length b) = users scn)
              \<and> int (length (last (batches res))) = requests scn mod users scn
              \<and> set (batch_records session scn (last (batches res))) \<subseteq> set (stats_list res)
              \<and> batch_errors session scn (last (batches res)) \<le> error_count res"
    proof
      assume "\<not> users scn dvd requests scn"
      with dv b(1) have bb: "batches res = full @ [rem]" by simp
      have "set (batch_records session scn rem) \<subseteq> set (stats_list res)"
        unfolding s bb by auto
      moreover have "batch_errors session scn rem \<le> error_count res"
        unfolding c bb by simp
      ultimately show "int (length (batches res)) = requests scn div users scn + 1
              \<and> (\<forall>b \<in> set (butlast (batches res)). int (length b) = users scn)
              \<and> int (length (last (batches res))) = requests scn mod users scn
              \<and> set (batch_records session scn (last (batches res))) \<subseteq> set (stats_list res)
              \<and> batch_errors session scn (last (batches res)) \<le> error_count res"
        using bb b by simp
    qed
    from e have ev: "events res = concat (map (batch_events session scn) (batches res))"
      by simp
    from e have d: "distinct (concat (batches res))"
      and k: "\<forall>i \<in> set (concat (batches res)). \<not> isl (get_key scn (session i))"
      by simp_all
    have 3: "\<forall>k k' i j. k < k' \<and> k' < length (batches res)
              \<and> i \<in> set (batches res ! k) \<and> j \<in> set (batches res ! k') \<longrightarrow>
            Resolved i \<in> set (events res) \<and> \<not> started_before j i (events res)"
      using barrier [OF ev d] by blast
    have 5: "\<forall>k i j. k < length (batches res)
              \<and> i \<in> set (batches res ! k) \<and> j \<in> set (batches res ! k) \<longrightarrow>
            started_before j i (events res)"
      using overlap [OF ev d k] by blast
    from e have k': "\<forall>i \<in> set [0..<nat (requests scn)]. \<not> isl (get_key scn (session i))"
      by simp
    have "length (filter (\<lambda>i. net (session i) = Transport_failure) [0..<nat (requests scn)])
            \<le> length [0..<nat (requests scn)]"
      by (rule length_filter_le)
    with batch_counts [OF k'] e
    have 4: "length (stats_list res) + error_count res = nat (requests scn)"
      by simp
    from e 1 2 3 4 5 show ?thesis by blast
  qed
  with run_scenario_returns_iff [of scn session] show ?thesis by blast
qed

text \<open>
  Ten requests in batches of five give two full batches; twelve give two full batches
  and a last one of two. Dispatch 4, the last of the first batch, is issued before
  dispatch 0, the first of that batch, resolves; dispatch 5, of the second batch, is not
  issued before dispatch 4 has resolved.
\<close>

theorem returning_runs_partition_requests_witness:
  "(\<exists>res. run_scenario demo_scenario demo_session = Inr res
      \<and> users demo_scenario dvd requests demo_scenario
      \<and> batches res = [[0, 1, 2, 3, 4], [5, 6, 7, 8, 9]]
      \<and> int (length (batches res)) = 2
      \<and> (\<forall>b \<in> set (batches res). int (length b) = 5)
      \<and> started_before 4 0 (events res)
      \<and> Resolved 4 \<in> set (events res) \<and> \<not> started_before 5 4 (events res)
      \<and> length (stats_list res) + error_count res = 10)
 \<and> (\<exists>res. run_scenario partial_scenario demo_session = Inr res
      \<and> \<not> users partial_scenario dvd requests partial_scenario
      \<and> batches res = [[0, 1, 2, 3, 4], [5, 6, 7, 8, 9], [10, 11]]
      \<and> int (length (batches res)) = 3
      \<and> int (length (last (batches res))) = 2
      \<and> set (batch_records demo_session partial_scenario [10, 11]) \<subseteq> set (stats_list res)
      \<and> length (stats_list res) + error_count res = 12)"
proof -
  note defs = run_scenario_def demo_scenario_def demo_session_def partial_scenario_def
    upt_conv_Cons Let_def gather_def worker_start_def worker_finish_def get_key_def randint_def
    initial_state_def generate_payload_def gauss_def py_int_def user_key_def
  note t = returning_runs_partition_requests [THEN conjunct1, rule_format]
  have "map_sum id batches (run_scenario demo_scenario demo_session)
          = Inr [[0, 1, 2, 3, 4], [5, 6, 7, 8, 9]]"
    by (simp add: defs)
  then obtain r1 where r1: "run_scenario demo_scenario demo_session = Inr r1"
    and b1: "batches r1 = [[0, 1, 2, 3, 4], [5, 6, 7, 8, 9]]"
    by (cases "run_scenario demo_scenario demo_session") auto
  have d1: "users demo_scenario dvd requests demo_scenario"
    "1 \<le> users demo_scenario" "0 \<le> requests demo_scenario"
    by (simp_all add: demo_scenario_def)
  note t1 = t [of demo_scenario demo_session r1, OF conjI [OF r1 conjI [OF d1(2,3)]]]
  from t1 d1(1)
  have p1: "int (length (batches r1)) = 2" "\<forall>b \<in> set (batches r1). int (length b) = 5"
    "length (stats_list r1) + error_count r1 = 10"
    by (simp_all add: demo_scenario_def)
  have "(0::nat) < 1 \<and> 1 < length (batches r1) \<and> (4::nat) \<in> set (batches r1 ! 0)
      \<and> (5::nat) \<in> set (batches r1 ! 1)"
    unfolding b1 by simp
  with t1 have q1: "Resolved 4 \<in> set (events r1) \<and> \<not> started_before 5 4 (events r1)"
    by blast
  have "0 < length (batches r1) \<and> (0::nat) \<in> set (batches r1 ! 0)
      \<and> (4::nat) \<in> set (batches r1 ! 0)"
    unfolding b1 by simp
  with t1 have o1: "started_before 4 0 (events r1)"
    by blast
  have "map_sum id batches (run_scenario partial_scenario demo_session)
          = Inr [[0, 1, 2, 3, 4], [5, 6, 7, 8, 9], [10, 11]]"
    by (simp add: defs)
  then obtain r2 where r2: "run_scenario partial_scenario demo_session = Inr r2"
    and b2: "batches r2 = [[0, 1, 2, 3, 4], [5, 6, 7, 8, 9], [10, 11]]"
    by (cases "run_scenario partial_scenario demo_session") auto
  have d2: "\<not> users partial_scenario dvd requests partial_scenario"
    "1 \<le> users partial_scenario" "0 \<le> requests partial_scenario"
    by (simp_all add: partial_scenario_def demo_scenario_def)
  note t2 = t [of partial_scenario demo_session r2, OF conjI [OF r2 conjI [OF d2(2,3)]]]
  from t2 d2(1)
  have "int (length (batches r2)) = requests partial_scenario div users partial_scenario + 1"
    "int (length (last (batches r2))) = requests partial_scenario mod users partial_scenario"
    "set (batch_records demo_session partial_scenario (last (batches r2))) \<subseteq> set (stats_list r2)"
    "length (stats_list r2) + error_count r2 = nat (requests partial_scenario)"
    by blast+
  then have p2: "int (length (batches r2)) = 3" "int (length (last (batches r2))) = 2"
    "set (batch_records demo_session partial_scenario [10, 11]) \<subseteq> set (stats_list r2)"
    "length (stats_list r2) + error_count r2 = 12"
    unfolding b2 by (simp_all add: partial_scenario_def demo_scenario_def)
  from r1 d1(1) b1 p1 o1 q1 r2 d2(1) b2 p2 show ?thesis by blast
qed


subsection \<open>Progress lines\<close>

text \<open>
  Claim C3 says that every run prints ten progress lines, one at each tenth of the
  requests. The source tests for a tenth only after a batch has been gathered inside the
  loop, so a tenth that is not the end of a full batch is skipped. For the second entry of
  the source's own catalogue (50000 requests, 3000 users) the run prints three lines, at
  30, 60 and 90 percent. With fewer than ten requests the test divides by zero: a run of
  five requests in one batch of five ends with ZeroDivisionError.
\<close>

theorem progress_lines_miss_thresholds:
  "map_sum id printed (run_scenario flash_sale quiet_session)
     = Inr [\<lparr>completed = 15000, percent = 30\<rparr>, \<lparr>completed = 30000, percent = 60\<rparr>,
            \<lparr>completed = 45000, percent = 90\<rparr>]
   \<and> run_scenario tiny_scenario quiet_session = Inl ZeroDivisionError"
proof -
  have "requests flash_sale div 10 \<noteq> 0" by (simp add: flash_sale_def)
  with flash_sale_keys have "\<exists>res. run_scenario flash_sale quiet_session = Inr res"
    by (intro run_scenario_returns) simp_all
  then obtain res where r: "run_scenario flash_sale quiet_session = Inr res" ..
  have u: "1 \<le> users flash_sale" by (simp add: flash_sale_def)
  have "printed res = map (progress 50000) (filter (\<lambda>i. 15000 dvd Suc i) [0..<50000])"
    using run_scenario_printed [OF r u] by (simp add: flash_sale_def flash_sale_boundaries)
  also have "filter (\<lambda>i. 15000 dvd Suc i) [0..<50000] = map (\<lambda>j. Suc j * 15000 - 1) [0..<50000 div 15000]"
    by (rule filter_dvd_Suc) simp
  also have "\<dots> = [14999, 29999, 44999]"
    by (simp add: upt_conv_Cons)
  finally have "printed res = [\<lparr>completed = 15000, percent = 30\<rparr>,
      \<lparr>completed = 30000, percent = 60\<rparr>, \<lparr>completed = 45000, percent = 90\<rparr>]"
    by (simp add: progress_def)
  with r have 1: "map_sum id printed (run_scenario flash_sale quiet_session)
     = Inr [\<lparr>completed = 15000, percent = 30\<rparr>, \<lparr>completed = 30000, percent = 60\<rparr>,
            \<lparr>completed = 45000, percent = 90\<rparr>]"
    by simp
  have 2: "run_scenario tiny_scenario quiet_session = Inl ZeroDivisionError"
    by (simp add: run_scenario_def tiny_scenario_def demo_scenario_def quiet_session_def
        upt_conv_Cons Let_def gather_def worker_start_def worker_finish_def get_key_def
        randint_def initial_state_def generate_payload_def gauss_def py_int_def user_key_def)
  from 1 2 show ?thesis by blast
qed

subsection \<open>Payload sizes\<close>

text \<open>
  Claim C4 says that the payload length is the Gaussian draw rounded to the nearest
  integer, and at least 1. The source converts the draw with \<open>int\<close>, which drops the
  fraction. With mean 5.75 and deviation 0 the draw is 5.75 and the payload has 5 bytes,
  where rounding to nearest gives 6 (5.75 is no tie, so the treatment of ties plays no
  part).
\<close>

theorem payload_length_rounds_counterexample:
  "gauss (23 / 4) 0 1 = 23 / 4
   \<and> length (generate_payload (23 / 4) 0 1) = 5
   \<and> nat (max 1 (round (gauss (23 / 4) 0 1))) = 6
   \<and> length (generate_payload (23 / 4) 0 1) \<noteq> nat (max 1 (round (gauss (23 / 4) 0 1)))"
  by (simp add: generate_payload_def gauss_def py_int_def round_def Let_def)

text \<open>
  Claim C4, amended: the payload length is the Gaussian draw with its fraction dropped
  and at least 1, which is the larger of 1 and the floor of the draw. With deviation 0
  every payload has the fixed length \<open>max 1 \<lfloor>mean\<rfloor>\<close>.
\<close>

theorem payload_length_truncates:
  "length (generate_payload mean std z) = nat (max 1 (py_int (gauss mean std z)))
   \<and> length (generate_payload mean std z) = nat (max 1 \<lfloor>gauss mean std z\<rfloor>)
   \<and> length (generate_payload mean 0 z) = nat (max 1 \<lfloor>mean\<rfloor>)"
proof -
  have "length (generate_payload m s z) = nat (max 1 (py_int (gauss m s z)))" for m s
    by (simp add: generate_payload_def Let_def)
  moreover have "gauss mean 0 z = mean" by (simp add: gauss_def)
  ultimately show ?thesis by (simp add: max1_py_int)
qed


text \<open>
  Claim C8. Whatever the mean, the deviation and the draw, a negative or zero draw
  included, the payload has at least one byte.
\<close>

theorem payload_length_at_least_one:
  "1 \<le> length (generate_payload mean std z)"
  by (simp add: generate_payload_def Let_def)


subsection \<open>Reads and writes\<close>

text \<open>
  Claim C5. A dispatch compares its own draw \<open>U\<close> with \<open>read_ratio\<close>: when
  \<open>U > read_ratio\<close> it POSTs key and value to \<open>/store\<close> and its record says WRITE,
  otherwise it GETs \<open>/retrieve/key\<close> and its record says READ. In a run that returns,
  the POSTs are as many as the dispatches with \<open>U > read_ratio\<close>, the GETs as many as
  the others, and the WRITE and READ records as many as the answered ones among them.
  For ten requests, five users and a read ratio of 1, with draws in \<open>[0, 1)\<close> and no
  failure of key sampling, the run returns with ten GETs and no POST, every record says
  READ, and without transport failures there are ten records.
\<close>

theorem write_exactly_when_draw_exceeds_read_ratio:
  "(\<forall>key. get_key scn (session i) = Inr key \<longrightarrow>
      events (snd (worker session i scn st)) = events st @
        [Issued i (if u_op (session i) > read_ratio scn
                   then POST (BASE_URL @ ''/store'') key
                          (generate_payload (payload_mean scn) (payload_std scn) (z_gauss (session i)))
                   else GET (BASE_URL @ ''/retrieve/'' @ str_key key)),
         Resolved i]
      \<and> (\<forall>s. net (session i) = Response s \<longrightarrow>
            (\<exists>r. stats_list (snd (worker session i scn st)) = stats_list st @ [r]
               \<and> rec_operation r = (if u_op (session i) > read_ratio scn then WRITE else READ))))
 \<and> (\<forall>res. run_scenario scn session = Inr res \<longrightarrow>
      length (filter (\<lambda>e. issued_op e = Some WRITE) (events res))
        = length (filter (\<lambda>j. u_op (session j) > read_ratio scn) [0..<nat (requests scn)])
      \<and> length (filter (\<lambda>e. issued_op e = Some READ) (events res))
        = length (filter (\<lambda>j. \<not> u_op (session j) > read_ratio scn) [0..<nat (requests scn)])
      \<and> length (filter (\<lambda>r. rec_operation r = WRITE) (stats_list res))
        = length (filter (\<lambda>j. u_op (session j) > read_ratio scn
                              \<and> net (session j) \<noteq> Transport_failure) [0..<nat (requests scn)])
      \<and> length (filter (\<lambda>r. rec_operation r = READ) (stats_list res))
        = length (filter (\<lambda>j. \<not> u_op (session j) > read_ratio scn
                              \<and> net (session j) \<noteq> Transport_failure) [0..<nat (requests scn)]))
 \<and> (requests scn = 10 \<and> users scn = 5 \<and> read_ratio scn = 1
      \<and> (\<forall>j < 10. 0 \<le> u_op (session j) \<and> u_op (session j) < 1)
      \<and> (\<forall>j < 10. \<not> isl (get_key scn (session j))) \<longrightarrow>
      (\<exists>res. run_scenario scn session = Inr res
         \<and> length (filter (\<lambda>e. issued_op e = Some READ) (events res)) = 10
         \<and> length (filter (\<lambda>e. issued_op e = Some WRITE) (events res)) = 0
         \<and> (\<forall>r \<in> set (stats_list res). rec_operation r = READ)
         \<and> ((\<forall>j < 10. net (session j) \<noteq> Transport_failure) \<longrightarrow> length (stats_list res) = 10)))"
proof -
  have A: "events (snd (worker session i scn st)) = events st @
        [Issued i (if u_op (session i) > read_ratio scn
                   then POST (BASE_URL @ ''/store'') key
                          (generate_payload (payload_mean scn) (payload_std scn) (z_gauss (session i)))
                   else GET (BASE_URL @ ''/retrieve/'' @ str_key key)),
         Resolved i]
      \<and> (\<forall>s. net (session i) = Response s \<longrightarrow>
            (\<exists>r. stats_list (snd (worker session i scn st)) = stats_list st @ [r]
               \<and> rec_operation r = (if u_op (session i) > read_ratio scn then WRITE else READ)))"
    if "get_key scn (session i) = Inr key" for key
    using that by (cases "net (session i)") (simp_all add: worker_def Let_def)
  have M: "map rec_operation (stats_list res)
        = map (\<lambda>j. if u_op (session j) > read_ratio scn then WRITE else READ)
            (filter (\<lambda>j. net (session j) \<noteq> Transport_failure) [0..<nat (requests scn)])"
    and E: "length (filter (\<lambda>e. issued_op e = Some WRITE) (events res))
        = length (filter (\<lambda>j. u_op (session j) > read_ratio scn) [0..<nat (requests scn)])
      \<and> length (filter (\<lambda>e. issued_op e = Some READ) (events res))
        = length (filter (\<lambda>j. \<not> u_op (session j) > read_ratio scn) [0..<nat (requests scn)])"
    if r: "run_scenario scn session = Inr res" for res
  proof -
    note e = run_scenario_effect [OF r]
    from e have k: "\<forall>j \<in> set [0..<nat (requests scn)]. \<not> isl (get_key scn (session j))"
      by simp
    from e have kb: "\<forall>j \<in> set (concat (batches res)). \<not> isl (get_key scn (session j))"
      by simp
    from batch_ops [OF k] events_ops [OF kb] e
    show "map rec_operation (stats_list res)
        = map (\<lambda>j. if u_op (session j) > read_ratio scn then WRITE else READ)
            (filter (\<lambda>j. net (session j) \<noteq> Transport_failure) [0..<nat (requests scn)])"
      and "length (filter (\<lambda>e. issued_op e = Some WRITE) (events res))
        = length (filter (\<lambda>j. u_op (session j) > read_ratio scn) [0..<nat (requests scn)])
      \<and> length (filter (\<lambda>e. issued_op e = Some READ) (events res))
        = length (filter (\<lambda>j. \<not> u_op (session j) > read_ratio scn) [0..<nat (requests scn)])"
      by simp_all
  qed
  have B: "length (filter (\<lambda>e. issued_op e = Some WRITE) (events res))
        = length (filter (\<lambda>j. u_op (session j) > read_ratio scn) [0..<nat (requests scn)])
      \<and> length (filter (\<lambda>e. issued_op e = Some READ) (events res))
        = length (filter (\<lambda>j. \<not> u_op (session j) > read_ratio scn) [0..<nat (requests scn)])
      \<and> length (filter (\<lambda>r. rec_operation r = WRITE) (stats_list res))
        = length (filter (\<lambda>j. u_op (session j) > read_ratio scn
                              \<and> net (session j) \<noteq> Transport_failure) [0..<nat (requests scn)])
      \<and> length (filter (\<lambda>r. rec_operation r = READ) (stats_list res))
        = length (filter (\<lambda>j. \<not> u_op (session j) > read_ratio scn
                              \<and> net (session j) \<noteq> Transport_failure) [0..<nat (requests scn)])"
    if r: "run_scenario scn session = Inr res" for res
  proof -
    have w: "(\<lambda>j. (if u_op (session j) > read_ratio scn then WRITE else READ) = WRITE
                  \<and> net (session j) \<noteq> Transport_failure)
           = (\<lambda>j. u_op (session j) > read_ratio scn \<and> net (session j) \<noteq> Transport_failure)"
      by auto
    have d: "(\<lambda>j. (if u_op (session j) > read_ratio scn then WRITE else READ) = READ
                  \<and> net (session j) \<noteq> Transport_failure)
           = (\<lambda>j. \<not> u_op (session j) > read_ratio scn \<and> net (session j) \<noteq> Transport_failure)"
      by auto
    from count_by_op [OF M [OF r], of WRITE] count_by_op [OF M [OF r], of READ] E [OF r]
    show ?thesis unfolding w d by blast
  qed
  have C: "\<exists>res. run_scenario scn session = Inr res
         \<and> length (filter (\<lambda>e. issued_op e = Some READ) (events res)) = 10
         \<and> length (filter (\<lambda>e. issued_op e = Some WRITE) (events res)) = 0
         \<and> (\<forall>r \<in> set (stats_list res). rec_operation r = READ)
         \<and> ((\<forall>j < 10. net (session j) \<noteq> Transport_failure) \<longrightarrow> length (stats_list res) = 10)"
    if h: "requests scn = 10 \<and> users scn = 5 \<and> read_ratio scn = 1
      \<and> (\<forall>j < 10. 0 \<le> u_op (session j) \<and> u_op (session j) < 1)
      \<and> (\<forall>j < 10. \<not> isl (get_key scn (session j)))"
  proof -
    from h have n: "nat (requests scn) = 10" and rr: "read_ratio scn = 1"
      and u: "\<forall>j \<in> set [0..<10]. \<not> u_op (session j) > 1"
      and k: "\<forall>j < nat (requests scn). \<not> isl (get_key scn (session j))"
      and d: "requests scn div 10 \<noteq> 0"
      by auto
    from run_scenario_returns [OF k d] obtain res where r: "run_scenario scn session = Inr res" ..
    note b = E [OF r, unfolded n rr] M [OF r, unfolded n rr]
    from u have f0: "filter (\<lambda>j. u_op (session j) > 1) [0..<10] = []"
      unfolding filter_empty_conv by blast
    from u have f1: "filter (\<lambda>j. \<not> u_op (session j) > 1) [0..<10] = [0..<10]"
      unfolding filter_id_conv by blast
    from b f0 f1 have 1: "length (filter (\<lambda>e. issued_op e = Some READ) (events res)) = 10"
      and 2: "length (filter (\<lambda>e. issued_op e = Some WRITE) (events res)) = 0"
      by simp_all
    from b u have m: "map rec_operation (stats_list res)
        = map (\<lambda>j. READ) (filter (\<lambda>j. net (session j) \<noteq> Transport_failure) [0..<10])"
      by (auto intro: map_cong)
    have 3: "\<forall>r \<in> set (stats_list res). rec_operation r = READ"
    proof
      fix r assume "r \<in> set (stats_list res)"
      then have "rec_operation r \<in> set (map rec_operation (stats_list res))" by simp
      then show "rec_operation r = READ" unfolding m by auto
    qed
    have 4: "length (stats_list res) = 10" if "\<forall>j < 10. net (session j) \<noteq> Transport_failure"
    proof -
      from that have "filter (\<lambda>j. net (session j) \<noteq> Transport_failure) [0..<10] = [0..<10]"
        unfolding filter_id_conv by simp
      with m have "length (map rec_operation (stats_list res)) = 10" by simp
      then show ?thesis by simp
    qed
    from r 1 2 3 4 show ?thesis by blast
  qed
  from A B C show ?thesis by blast
qed


text \<open>
  The example scenario with every dispatch answered: ten reads, ten READ records. The
  same dispatch under a read ratio of 0.2 is a POST of \<open>user_1\<close> with a payload of three
  bytes.
\<close>

theorem write_exactly_when_draw_exceeds_read_ratio_witness:
  "requests demo_scenario = 10 \<and> users demo_scenario = 5 \<and> read_ratio demo_scenario = 1
   \<and> (\<exists>res. run_scenario demo_scenario quiet_session = Inr res
         \<and> length (filter (\<lambda>e. issued_op e = Some READ) (events res)) = 10
         \<and> length (filter (\<lambda>e. issued_op e = Some WRITE) (events res)) = 0
         \<and> (\<forall>r \<in> set (stats_list res). rec_operation r = READ)
         \<and> length (stats_list res) = 10)
   \<and> u_op (quiet_session 0) > read_ratio write_scenario
   \<and> events (snd (worker quiet_session 0 write_scenario initial_state))
        = [Issued 0 (POST ''http://localhost:8080/api/cache/store'' (Some ''user_1'') ''XXX''),
           Resolved 0]
   \<and> \<not> u_op (quiet_session 0) > read_ratio demo_scenario
   \<and> events (snd (worker quiet_session 0 demo_scenario initial_state))
        = [Issued 0 (GET ''http://localhost:8080/api/cache/retrieve/user_1''), Resolved 0]"
proof -
  note defs = demo_scenario_def write_scenario_def quiet_session_def
  note keys = get_key_def randint_def user_key_def str_int_def str_nat.simps digit_char_def Let_def
  have h: "requests demo_scenario = 10 \<and> users demo_scenario = 5 \<and> read_ratio demo_scenario = 1
      \<and> (\<forall>j < 10. 0 \<le> u_op (quiet_session j) \<and> u_op (quiet_session j) < 1)
      \<and> (\<forall>j < 10. \<not> isl (get_key demo_scenario (quiet_session j)))"
    by (simp add: defs get_key_def randint_def Let_def)
  have q: "\<forall>j < 10. net (quiet_session j) \<noteq> Transport_failure"
    by (simp add: quiet_session_def)
  note t = write_exactly_when_draw_exceeds_read_ratio
  from t [of demo_scenario quiet_session 0 initial_state, THEN conjunct2, THEN conjunct2,
      rule_format, OF h] q
  have run: "\<exists>res. run_scenario demo_scenario quiet_session = Inr res
         \<and> length (filter (\<lambda>e. issued_op e = Some READ) (events res)) = 10
         \<and> length (filter (\<lambda>e. issued_op e = Some WRITE) (events res)) = 0
         \<and> (\<forall>r \<in> set (stats_list res). rec_operation r = READ)
         \<and> length (stats_list res) = 10"
    by blast
  have kw: "get_key write_scenario (quiet_session 0) = Inr (Some ''user_1'')"
    and kd: "get_key demo_scenario (quiet_session 0) = Inr (Some ''user_1'')"
    by (simp_all add: defs keys)
  have uw: "u_op (quiet_session 0) > read_ratio write_scenario"
    and ud: "\<not> u_op (quiet_session 0) > read_ratio demo_scenario"
    by (simp_all add: defs)
  from t [of write_scenario quiet_session 0 initial_state, THEN conjunct1, rule_format, OF kw,
      THEN conjunct1] uw
  have ew: "events (snd (worker quiet_session 0 write_scenario initial_state))
        = [Issued 0 (POST ''http://localhost:8080/api/cache/store'' (Some ''user_1'') ''XXX''),
           Resolved 0]"
    by (simp add: initial_state_def BASE_URL_def generate_payload_def gauss_def py_int_def defs
        numeral_3_eq_3)
  from t [of demo_scenario quiet_session 0 initial_state, THEN conjunct1, rule_format, OF kd,
      THEN conjunct1] ud
  have ed: "events (snd (worker quiet_session 0 demo_scenario initial_state))
        = [Issued 0 (GET ''http://localhost:8080/api/cache/retrieve/user_1''), Resolved 0]"
    by (simp add: initial_state_def BASE_URL_def str_key_def)
  from h run uw ew ud ed show ?thesis by blast
qed


subsection \<open>Key sampling\<close>

text \<open>
  Claim C7 says that with the pattern \<open>zipf\<close> the key is \<open>user_N\<close> for
  \<open>N = max 1 \<lfloor>key_space * U ^ 3\<rfloor>\<close>, \<open>U\<close> being the uniform draw. The source
  computes the power and the product in binary64, and the rounding can carry the product
  up to an integer that the product of the reals stays below. For a key space of 100 and
  the draw \<open>U = 3318280576899603 / 2 ^ 53\<close>, the cube of \<open>U\<close> rounds to
  \<open>3602879701896397 / 2 ^ 56\<close>, a hundred times that rounds to 5, and the key is
  \<open>user_5\<close>; the product of the reals is below 5, so the claim's \<open>N\<close> is 4.
\<close>

theorem zipf_key_exact_cube_counterexample:
  "key_pattern zipf_scenario = ''zipf''
   \<and> key_space zipf_scenario = 100
   \<and> u_zipf rounding_draw = 3318280576899603 / 2 ^ 53
   \<and> get_key zipf_scenario rounding_draw = Inr (Some ''user_5'')
   \<and> max 1 \<lfloor>real_of_int (key_space zipf_scenario) * (u_zipf rounding_draw) ^ 3\<rfloor> = 4
   \<and> get_key zipf_scenario rounding_draw
       \<noteq> Inr (Some (''user_'' @ str_int
             (max 1 \<lfloor>real_of_int (key_space zipf_scenario) * (u_zipf rounding_draw) ^ 3\<rfloor>)))"
proof -
  have c: "(3318280576899603 / 2 ^ 53 :: real) ^ 3
      = 36537540933272572564998819270576640823833729227 / 2 ^ 159"
    by (simp add: power_divide)
  have r1: "b64 100 = 100"
    by (subst b64_normal [of 6]) (simp_all add: rne_def Let_def)
  have r2: "b64 (36537540933272572564998819270576640823833729227 / 2 ^ 159)
      = 3602879701896397 / 2 ^ 56"
    by (subst b64_normal [of "- 5"]) (simp_all add: rne_def Let_def)
  have r3: "b64 (100 * (3602879701896397 / 2 ^ 56)) = 5"
    by (subst b64_normal [of 2]) (simp_all add: rne_def Let_def)
  have g: "get_key zipf_scenario rounding_draw
      = Inr (user_key (max 1 (py_int (b64 (b64 100 * b64 ((3318280576899603 / 2 ^ 53) ^ 3))))))"
    by (simp add: get_key_def zipf_scenario_def demo_scenario_def rounding_draw_def
        quiet_session_def Let_def)
  have "get_key zipf_scenario rounding_draw = Inr (user_key (max 1 (py_int 5)))"
    unfolding g c r2 r1 r3 by (rule refl)
  then have k: "get_key zipf_scenario rounding_draw = Inr (Some ''user_5'')"
    by (simp add: py_int_def user_key_def str_int_def str_nat.simps digit_char_def)
  have f: "\<lfloor>100 * (36537540933272572564998819270576640823833729227 / 2 ^ 159) :: real\<rfloor> = 4"
    by simp
  have u: "u_zipf rounding_draw = 3318280576899603 / 2 ^ 53"
    by (simp add: rounding_draw_def)
  have s: "key_space zipf_scenario = 100" "key_pattern zipf_scenario = ''zipf''"
    by (simp_all add: zipf_scenario_def demo_scenario_def)
  have m: "max 1 \<lfloor>real_of_int (key_space zipf_scenario) * (u_zipf rounding_draw) ^ 3\<rfloor> = 4"
    unfolding u s c using f by simp
  have "get_key zipf_scenario rounding_draw
       \<noteq> Inr (Some (''user_'' @ str_int
             (max 1 \<lfloor>real_of_int (key_space zipf_scenario) * (u_zipf rounding_draw) ^ 3\<rfloor>)))"
    unfolding m k by (simp add: str_int_def str_nat.simps digit_char_def)
  with s u k m show ?thesis by blast
qed

text \<open>
  Claim C7, amended. With the pattern \<open>zipf\<close> the key is \<open>user_N\<close> for
  \<open>N = max 1 \<lfloor>P\<rfloor>\<close>, where \<open>P\<close> is \<open>key_space * U ** 3\<close> as binary64
  arithmetic gives it: the cube of the uniform draw \<open>U\<close> rounded to binary64, multiplied
  by the key space converted to binary64, and the product rounded to binary64. The source
  truncates \<open>P\<close> toward zero where the claim takes the floor; below 1 both are replaced
  by 1.
\<close>

theorem zipf_key_is_rounded_cube_of_uniform:
  assumes "key_pattern scn = ''zipf''"
  shows "get_key scn d
     = Inr (Some (''user_'' @ str_int
         (max 1 \<lfloor>b64 (b64 (real_of_int (key_space scn)) * b64 ((u_zipf d) ^ 3))\<rfloor>)))"
  using assms by (simp add: get_key_def Let_def user_key_def max1_py_int)

text \<open>
  A key space of 100 and a draw of one half: no operation rounds, \<open>100 / 8 = 12.5\<close>,
  key \<open>user_12\<close>.
\<close>

theorem zipf_key_is_rounded_cube_of_uniform_witness:
  "key_pattern zipf_scenario = ''zipf''
   \<and> b64 (b64 (real_of_int (key_space zipf_scenario)) * b64 ((u_zipf (quiet_session 0)) ^ 3))
       = 25 / 2
   \<and> get_key zipf_scenario (quiet_session 0) = Inr (Some ''user_12'')"
proof -
  have p: "key_pattern zipf_scenario = ''zipf''"
    by (simp add: zipf_scenario_def)
  have r1: "b64 100 = 100"
    by (subst b64_normal [of 6]) (simp_all add: rne_def Let_def)
  have r2: "b64 (1 / 8) = 1 / 8"
    by (subst b64_normal [of "- 3"]) (simp_all add: rne_def Let_def)
  have r3: "b64 (25 / 2) = 25 / 2"
    by (subst b64_normal [of 3]) (simp_all add: rne_def Let_def)
  have b: "b64 (b64 (real_of_int (key_space zipf_scenario)) * b64 ((u_zipf (quiet_session 0)) ^ 3))
       = 25 / 2"
    by (simp add: zipf_scenario_def demo_scenario_def quiet_session_def power3_eq_cube r1 r2 r3)
  from zipf_key_is_rounded_cube_of_uniform [OF p, of "quiet_session 0"] p b show ?thesis
    by (simp add: str_int_def str_nat.simps digit_char_def)
qed


text \<open>
  Claim C6. With the pattern \<open>hot\<close> the sampler draws \<open>U\<close>; when \<open>U < 0.9\<close>, an
  interval of length 0.9 of \<open>[0, 1)\<close>, the range of \<open>N\<close> is
  \<open>[1, \<lfloor>key_space * 0.05\<rfloor>]\<close>, otherwise it is \<open>[1, key_space]\<close>. Every key the
  sampler returns is \<open>user_N\<close> for an \<open>N\<close> of that range, every \<open>N\<close> of the range is
  returned for some output of the generator, and no key is returned (ValueError) exactly
  when the range is empty.
\<close>

theorem hot_key_sampling:
  assumes "key_pattern scn = ''hot''"
  shows "(\<forall>k. get_key scn d = Inr k \<longrightarrow>
            (\<exists>N. k = Some (''user_'' @ str_int N) \<and> 1 \<le> N
               \<and> N \<le> (if u_hot d < 0.9 then \<lfloor>real_of_int (key_space scn) * 0.05\<rfloor>
                        else key_space scn)))
       \<and> (\<forall>N. 1 \<le> N
               \<and> N \<le> (if u_hot d < 0.9 then \<lfloor>real_of_int (key_space scn) * 0.05\<rfloor>
                        else key_space scn) \<longrightarrow>
            get_key scn (d\<lparr>raw_key := nat (N - 1)\<rparr>) = Inr (Some (''user_'' @ str_int N)))
       \<and> (get_key scn d = Inl ValueError \<longleftrightarrow>
            (if u_hot d < 0.9 then \<lfloor>real_of_int (key_space scn) * 0.05\<rfloor>
             else key_space scn) < 1)"
proof -
  define hi where "hi = (if u_hot d < 0.9 then \<lfloor>real_of_int (key_space scn) * 0.05\<rfloor>
                        else key_space scn)"
  have g: "get_key scn d = map_sum id user_key (randint (raw_key d) 1 hi)"
    unfolding hi_def by (rule hot_get_key [OF assms])
  have g': "get_key scn (d\<lparr>raw_key := r\<rparr>) = map_sum id user_key (randint r 1 hi)" for r
    unfolding hi_def using hot_get_key [OF assms, of "d\<lparr>raw_key := r\<rparr>"] by simp
  have 1: "\<exists>N. k = Some (''user_'' @ str_int N) \<and> 1 \<le> N \<and> N \<le> hi" if "get_key scn d = Inr k" for k
  proof -
    from that g obtain N where n: "randint (raw_key d) 1 hi = Inr N" and k: "k = user_key N"
      by (cases "randint (raw_key d) 1 hi") auto
    from randint_range [OF n] k show ?thesis by (auto simp: user_key_def)
  qed
  have 2: "get_key scn (d\<lparr>raw_key := nat (N - 1)\<rparr>) = Inr (Some (''user_'' @ str_int N))"
    if "1 \<le> N \<and> N \<le> hi" for N
    using that by (simp add: g' randint_onto user_key_def)
  have 3: "get_key scn d = Inl ValueError \<longleftrightarrow> hi < 1"
    unfolding g using randint_raises_iff [of "raw_key d" 1 hi]
    by (cases "randint (raw_key d) 1 hi") auto
  from 1 2 3 show ?thesis unfolding hi_def by blast
qed

text \<open>
  A key space of 1000: the hot range is \<open>[1, 50]\<close>; \<open>user_13\<close> and \<open>user_50\<close> are
  drawn from it with \<open>U = 0.5\<close>, \<open>user_777\<close> from the full range with \<open>U = 0.95\<close>.
\<close>

theorem hot_key_sampling_witness:
  "key_pattern hot_scenario = ''hot''
   \<and> u_hot (quiet_session 2) < 0.9
   \<and> \<lfloor>real_of_int (key_space hot_scenario) * 0.05\<rfloor> = 50
   \<and> get_key hot_scenario (quiet_session 2) = Inr (Some ''user_13'')
   \<and> (\<exists>N. Some ''user_13'' = Some (''user_'' @ str_int N) \<and> 1 \<le> N \<and> N \<le> 50)
   \<and> get_key hot_scenario ((quiet_session 2)\<lparr>raw_key := nat (50 - 1)\<rparr>) = Inr (Some ''user_50'')
   \<and> \<not> u_hot ((quiet_session 2)\<lparr>u_hot := 19 / 20\<rparr>) < 0.9
   \<and> get_key hot_scenario ((quiet_session 2)\<lparr>u_hot := 19 / 20, raw_key := nat (777 - 1)\<rparr>)
        = Inr (Some ''user_777'')
   \<and> get_key hot_scenario (quiet_session 2) \<noteq> Inl ValueError"
proof -
  note defs = hot_scenario_def demo_scenario_def quiet_session_def
  note strs = str_int_def str_nat.simps digit_char_def
  have p: "key_pattern hot_scenario = ''hot''" by (simp add: defs)
  have u: "u_hot (quiet_session 2) < 0.9" by (simp add: defs)
  have f: "\<lfloor>real_of_int (key_space hot_scenario) * 0.05\<rfloor> = 50" by (simp add: defs)
  have k: "get_key hot_scenario (quiet_session 2) = Inr (Some ''user_13'')"
    by (simp add: defs get_key_def randint_def py_int_def user_key_def strs Let_def)
  have u2: "\<not> u_hot ((quiet_session 2)\<lparr>u_hot := 19 / 20\<rparr>) < 0.9" by (simp add: defs)
  note t = hot_key_sampling [OF p, of "quiet_session 2"]
  have a: "get_key hot_scenario ((quiet_session 2)\<lparr>raw_key := nat (50 - 1)\<rparr>)
             = Inr (Some (''user_'' @ str_int 50))"
    by (rule t [THEN conjunct2, THEN conjunct1, rule_format]) (use u f in simp)
  have "\<not> (if u_hot (quiet_session 2) < 0.9
            then \<lfloor>real_of_int (key_space hot_scenario) * 0.05\<rfloor>
            else key_space hot_scenario) < 1"
    using u f by simp
  with t [THEN conjunct2, THEN conjunct2]
  have b: "get_key hot_scenario (quiet_session 2) \<noteq> Inl ValueError" by blast
  note t' = hot_key_sampling [OF p, of "(quiet_session 2)\<lparr>u_hot := 19 / 20\<rparr>"]
  have "get_key hot_scenario ((quiet_session 2)\<lparr>u_hot := 19 / 20\<rparr>\<lparr>raw_key := nat (777 - 1)\<rparr>)
             = Inr (Some (''user_'' @ str_int 777))"
    by (rule t' [THEN conjunct2, THEN conjunct1, rule_format]) (simp add: defs)
  then have c: "get_key hot_scenario ((quiet_session 2)\<lparr>u_hot := 19 / 20, raw_key := nat (777 - 1)\<rparr>)
             = Inr (Some (''user_'' @ str_int 777))"
    by simp
  have "\<exists>N. Some ''user_13'' = Some (''user_'' @ str_int N) \<and> 1 \<le> N
          \<and> N \<le> (if u_hot (quiet_session 2) < 0.9
                   then \<lfloor>real_of_int (key_space hot_scenario) * 0.05\<rfloor>
                   else key_space hot_scenario)"
    by (rule t [THEN conjunct1, rule_format, OF k])
  with u f have d: "\<exists>N. Some ''user_13'' = Some (''user_'' @ str_int N) \<and> 1 \<le> N \<and> N \<le> 50"
    by simp
  from a have a': "get_key hot_scenario ((quiet_session 2)\<lparr>raw_key := nat (50 - 1)\<rparr>)
             = Inr (Some ''user_50'')"
    by (simp add: strs)
  from c have c': "get_key hot_scenario ((quiet_session 2)\<lparr>u_hot := 19 / 20, raw_key := nat (777 - 1)\<rparr>)
             = Inr (Some ''user_777'')"
    by (simp add: strs)
  from p u f k d a' b c' u2 show ?thesis by blast
qed


text \<open>
  Claim C9. With the pattern \<open>hot\<close> and a key space below 20 the hot range is empty
  (its upper end \<open>int(key_space * 0.05)\<close> is at most 0, and is 0 for a key space that is
  not negative), so a dispatch that takes the hot branch (\<open>U < 0.9\<close>) raises ValueError in
  \<open>get_key\<close>. The exception leaves the worker with the state untouched: no record, no
  count. It ends every batch the dispatch belongs to, and the run.
\<close>

theorem small_hot_key_space_aborts:
  assumes "key_pattern scn = ''hot''" and "key_space scn < 20" and "u_hot (session i) < 0.9"
  shows "py_int (real_of_int (key_space scn) * 0.05) \<le> 0
       \<and> (0 \<le> key_space scn \<longrightarrow> \<lfloor>real_of_int (key_space scn) * 0.05\<rfloor> = 0)
       \<and> get_key scn (session i) = Inl ValueError
       \<and> worker session i scn st = (Some ValueError, st)
       \<and> (i \<in> set tasks \<longrightarrow> gather session scn tasks st = Inl ValueError)
       \<and> (i < nat (requests scn) \<longrightarrow> (\<exists>e. run_scenario scn session = Inl e))"
proof -
  from assms(2) have lt: "real_of_int (key_space scn) * 0.05 < 1" by simp
  then have fl: "\<lfloor>real_of_int (key_space scn) * 0.05\<rfloor> < 1"
    by (simp add: floor_less_iff)
  have 1: "py_int (real_of_int (key_space scn) * 0.05) \<le> 0"
  proof (cases "0 \<le> real_of_int (key_space scn) * 0.05")
    case True
    with fl show ?thesis by (simp add: py_int_def)
  next
    case False
    then have "\<lceil>real_of_int (key_space scn) * 0.05\<rceil> \<le> 0"
      by (simp add: ceiling_le_iff)
    with False show ?thesis by (simp add: py_int_def)
  qed
  have 2: "0 \<le> key_space scn \<longrightarrow> \<lfloor>real_of_int (key_space scn) * 0.05\<rfloor> = 0"
  proof
    assume "0 \<le> key_space scn"
    then have "0 \<le> real_of_int (key_space scn) * 0.05" by simp
    with lt show "\<lfloor>real_of_int (key_space scn) * 0.05\<rfloor> = 0"
      unfolding floor_eq_iff by simp
  qed
  from 1 assms(1,3) have 3: "get_key scn (session i) = Inl ValueError"
    by (simp add: get_key_def Let_def randint_def)
  then have 4: "worker session i scn st = (Some ValueError, st)"
    by (rule worker_raises)
  from 3 have k: "isl (get_key scn (session i))" by simp
  then have 5: "i \<in> set tasks \<longrightarrow> gather session scn tasks st = Inl ValueError"
    by (blast intro: gather_raises)
  from k have 6: "i < nat (requests scn) \<longrightarrow> (\<exists>e. run_scenario scn session = Inl e)"
    by (blast intro: run_scenario_raises)
  from 1 2 3 4 5 6 show ?thesis by blast
qed

text \<open>A key space of 19; dispatch 1 of the first batch draws \<open>U = 0.5\<close>.\<close>

theorem small_hot_key_space_aborts_witness:
  "key_pattern small_hot_scenario = ''hot'' \<and> key_space small_hot_scenario < 20
   \<and> u_hot (quiet_session 1) < 0.9
   \<and> \<lfloor>real_of_int (key_space small_hot_scenario) * 0.05\<rfloor> = 0
   \<and> get_key small_hot_scenario (quiet_session 1) = Inl ValueError
   \<and> worker quiet_session 1 small_hot_scenario initial_state = (Some ValueError, initial_state)
   \<and> gather quiet_session small_hot_scenario [0, 1, 2, 3, 4] initial_state = Inl ValueError
   \<and> (\<exists>e. run_scenario small_hot_scenario quiet_session = Inl e)"
proof -
  have h: "key_pattern small_hot_scenario = ''hot''" "key_space small_hot_scenario < 20"
    "u_hot (quiet_session 1) < 0.9"
    by (simp_all add: small_hot_scenario_def demo_scenario_def quiet_session_def)
  have i: "(1::nat) \<in> set [0, 1, 2, 3, 4]" "1 < nat (requests small_hot_scenario)"
    "0 \<le> key_space small_hot_scenario"
    by (simp_all add: small_hot_scenario_def demo_scenario_def)
  from small_hot_key_space_aborts
    [of small_hot_scenario quiet_session 1 initial_state "[0, 1, 2, 3, 4]", OF h] h i
  show ?thesis by blast
qed


text \<open>
  Claim C10. With a pattern other than \<open>uniform\<close>, \<open>hot\<close> and \<open>zipf\<close> the
  sampler raises nothing and returns \<open>None\<close>. The worker goes on: it issues its request
  with that key, a POST whose body holds the key \<open>None\<close> or a GET of
  \<open>/retrieve/None\<close>, and a response is booked as a record whose key is \<open>None\<close>.
\<close>

theorem unknown_pattern_gives_no_key:
  assumes "key_pattern scn \<notin> {''uniform'', ''hot'', ''zipf''}"
  shows "get_key scn (session i) = Inr None
       \<and> fst (worker session i scn st) = None
       \<and> events (snd (worker session i scn st)) = events st @
           [Issued i (if u_op (session i) > read_ratio scn
                      then POST (BASE_URL @ ''/store'') None
                             (generate_payload (payload_mean scn) (payload_std scn) (z_gauss (session i)))
                      else GET (BASE_URL @ ''/retrieve/None'')),
            Resolved i]
       \<and> (\<forall>s. net (session i) = Response s \<longrightarrow>
            (\<exists>r. stats_list (snd (worker session i scn st)) = stats_list st @ [r]
               \<and> rec_key r = None \<and> rec_status r = s))"
proof -
  from assms have g: "get_key scn (session i) = Inr None"
    by (simp add: get_key_def Let_def)
  then show ?thesis
    by (cases "net (session i)") (simp_all add: worker_def Let_def str_key_def)
qed

text \<open>The pattern \<open>lru\<close>, a read: the request is a GET of \<open>/retrieve/None\<close>.\<close>

theorem unknown_pattern_gives_no_key_witness:
  "key_pattern lru_scenario \<notin> {''uniform'', ''hot'', ''zipf''}
   \<and> get_key lru_scenario (quiet_session 0) = Inr None
   \<and> fst (worker quiet_session 0 lru_scenario initial_state) = None
   \<and> events (snd (worker quiet_session 0 lru_scenario initial_state))
        = [Issued 0 (GET ''http://localhost:8080/api/cache/retrieve/None''), Resolved 0]
   \<and> (\<exists>r. stats_list (snd (worker quiet_session 0 lru_scenario initial_state)) = [r]
          \<and> rec_key r = None \<and> rec_status r = 200)"
proof -
  have p: "key_pattern lru_scenario \<notin> {''uniform'', ''hot'', ''zipf''}"
    by (simp add: lru_scenario_def demo_scenario_def)
  have u: "\<not> u_op (quiet_session 0) > read_ratio lru_scenario"
    "net (quiet_session 0) = Response 200"
    by (simp_all add: lru_scenario_def demo_scenario_def quiet_session_def)
  note t = unknown_pattern_gives_no_key [OF p, of quiet_session 0 initial_state]
  from t u(1) have e: "events (snd (worker quiet_session 0 lru_scenario initial_state))
        = [Issued 0 (GET ''http://localhost:8080/api/cache/retrieve/None''), Resolved 0]"
    by (simp add: initial_state_def BASE_URL_def)
  from t u(2) have r: "\<exists>r. stats_list (snd (worker quiet_session 0 lru_scenario initial_state)) = [r]
          \<and> rec_key r = None \<and> rec_status r = 200"
    by (simp add: initial_state_def)
  from t p e r show ?thesis by blast
qed


end
